theory Spec2Isabelle
  imports Complex_Main "HOL-Library.AList" "HOL-Library.Multiset" "HOL-Library.Extended_Nat"
begin

section \<open>Schedule records read from the database\<close>

text \<open>
  The network script \<^verbatim>\<open>gtfs_astar.py\<close> reads three frames from SQLite with pandas.
  A cell of a REAL column arrives as a Python float; a NULL cell of such a column
  arrives as the float \<^verbatim>\<open>nan\<close>. Finite floats are idealised as real numbers
  (no rounding, no infinities); \<open>NaN\<close> stands for the float that is not a number.
\<close>

datatype pyfloat = Fin real | NaN

datatype py_error = KeyError | ValueError | NodeNotFound | NetworkXNoPath

text \<open>A row of \<^verbatim>\<open>stops_df\<close>: \<^verbatim>\<open>SELECT stop_id, stop_name, stop_lat, stop_lon FROM stops\<close>.\<close>

record stop_row =
  stop_id :: string
  stop_name :: string
  stop_lat :: pyfloat
  stop_lon :: pyfloat

text \<open>
  A row of \<^verbatim>\<open>trip_edges_df\<close>, the result of the grouped query over
  \<^verbatim>\<open>trip_segments\<close> (columns \<^verbatim>\<open>from_stop_id, to_stop_id, weight, route_id\<close>).
  The graph builder reads the frame row by row and relies on nothing else about it.
\<close>

record trip_edge_row =
  seg_from_stop_id :: string
  seg_to_stop_id :: string
  seg_weight :: int
  seg_route_id :: string

text \<open>A row of the table \<^verbatim>\<open>transfers\<close>; \<open>None\<close> is SQL NULL.\<close>

record transfer_rec =
  from_stop_id :: string
  to_stop_id :: string
  min_transfer_time :: "int option"

text \<open>
  \<^verbatim>\<open>CASE WHEN min_transfer_time > 0 THEN min_transfer_time ELSE 180 END\<close>:
  a NULL makes the comparison unknown, so the ELSE branch is taken.
\<close>

definition transfer_weight :: "int option \<Rightarrow> int" where
  "transfer_weight m = (case m of None \<Rightarrow> 180 | Some t \<Rightarrow> if t > 0 then t else 180)"

text \<open>
  \<^verbatim>\<open>transfer_query\<close>: \<^verbatim>\<open>SELECT from_stop_id, to_stop_id, CASE ... END as weight
  FROM transfers WHERE from_stop_id != to_stop_id\<close>; the rows of \<^verbatim>\<open>transfer_edges_df\<close>
  are triples (from, to, weight).
\<close>

definition transfer_query :: "transfer_rec list \<Rightarrow> (string \<times> string \<times> int) list" where
  "transfer_query transfers =
     map (\<lambda>r. (from_stop_id r, to_stop_id r, transfer_weight (min_transfer_time r)))
       (filter (\<lambda>r. from_stop_id r \<noteq> to_stop_id r) transfers)"

section \<open>The directed graph (networkx \<^verbatim>\<open>DiGraph\<close>)\<close>

text \<open>
  A \<^verbatim>\<open>DiGraph\<close> keeps a dictionary of node attribute dictionaries and, per node, a
  dictionary from successor to edge attribute dictionary. Python dictionaries keep
  insertion order, and the search iterates over successors in that order, so both are
  association lists: \<open>AList.update\<close> overwrites a key in place or appends it.
\<close>

datatype edge_type = travel | transfer

record node_attrs =
  name :: "string option"
  coords :: "(pyfloat \<times> pyfloat) option"

record edge_attrs =
  weight :: int
  etype :: edge_type
  route :: "string option"

record digraph =
  nodes :: "(string \<times> node_attrs) list"
  adj :: "(string \<times> (string \<times> edge_attrs) list) list"

definition DiGraph :: digraph where
  "DiGraph = \<lparr>nodes = [], adj = []\<rparr>"

definition has_node :: "digraph \<Rightarrow> string \<Rightarrow> bool" where
  "has_node G n = (map_of (nodes G) n \<noteq> None)"

definition add_node :: "digraph \<Rightarrow> string \<Rightarrow> digraph" where
  "add_node G n =
     (if has_node G n then G
      else G\<lparr>nodes := nodes G @ [(n, \<lparr>name = None, coords = None\<rparr>)],
             adj := adj G @ [(n, [])]\<rparr>)"

definition add_nodes_from :: "digraph \<Rightarrow> string list \<Rightarrow> digraph" where
  "add_nodes_from G ns = foldl add_node G ns"

text \<open>
  \<^verbatim>\<open>nx.set_node_attributes(G, values, name)\<close> with a dictionary of values: every key
  that is a node gets the attribute, a key that is no node is skipped.
\<close>

definition set_name :: "digraph \<Rightarrow> string \<times> string \<Rightarrow> digraph" where
  "set_name G kv =
     (case map_of (nodes G) (fst kv) of
        None \<Rightarrow> G
      | Some a \<Rightarrow> G\<lparr>nodes := AList.update (fst kv) (a\<lparr>name := Some (snd kv)\<rparr>) (nodes G)\<rparr>)"

definition set_coords :: "digraph \<Rightarrow> string \<times> (pyfloat \<times> pyfloat) \<Rightarrow> digraph" where
  "set_coords G kv =
     (case map_of (nodes G) (fst kv) of
        None \<Rightarrow> G
      | Some a \<Rightarrow> G\<lparr>nodes := AList.update (fst kv) (a\<lparr>coords := Some (snd kv)\<rparr>) (nodes G)\<rparr>)"

text \<open>The successor dictionary \<^verbatim>\<open>G[u]\<close> and the edge dictionary \<^verbatim>\<open>G[u][v]\<close>.\<close>

definition succs :: "digraph \<Rightarrow> string \<Rightarrow> (string \<times> edge_attrs) list" where
  "succs G u = (case map_of (adj G) u of None \<Rightarrow> [] | Some row \<Rightarrow> row)"

definition get_edge :: "digraph \<Rightarrow> string \<Rightarrow> string \<Rightarrow> edge_attrs option" where
  "get_edge G u v = map_of (succs G u) v"

text \<open>
  \<^verbatim>\<open>G.add_edge(u, v, **attr)\<close>: both endpoints become nodes when they are not yet;
  the attribute dictionary of an edge that exists already is updated with the new
  attributes, so an attribute the call does not pass keeps its old value.
\<close>

definition merge_attrs :: "edge_attrs option \<Rightarrow> int \<Rightarrow> edge_type \<Rightarrow> string option \<Rightarrow> edge_attrs" where
  "merge_attrs old w t r =
     \<lparr>weight = w, etype = t,
      route = (case r of Some x \<Rightarrow> Some x
               | None \<Rightarrow> (case old of None \<Rightarrow> None | Some d \<Rightarrow> route d))\<rparr>"

definition add_edge :: "digraph \<Rightarrow> string \<Rightarrow> string \<Rightarrow> int \<Rightarrow> edge_type \<Rightarrow> string option \<Rightarrow> digraph" where
  "add_edge G u v w t r =
     (let G' = add_node (add_node G u) v;
          datadict = merge_attrs (get_edge G' u v) w t r
      in G'\<lparr>adj := AList.update u (AList.update v datadict (succs G' u)) (adj G')\<rparr>)"

section \<open>The graph builder\<close>

definition add_trip_edge :: "digraph \<Rightarrow> trip_edge_row \<Rightarrow> digraph" where
  "add_trip_edge G row =
     add_edge G (seg_from_stop_id row) (seg_to_stop_id row) (seg_weight row) travel
       (Some (seg_route_id row))"

definition add_transfer_edge :: "digraph \<Rightarrow> string \<times> string \<times> int \<Rightarrow> digraph" where
  "add_transfer_edge G row =
     (case row of (f, t, w) \<Rightarrow>
        if has_node G f \<and> has_node G t then add_edge G f t w transfer None else G)"

text \<open>
  Part 3 of \<^verbatim>\<open>build_network_and_predict\<close>, from the three frames. The lookup
  dictionary of coordinates is made with \<^verbatim>\<open>to_dict('index')\<close>, which raises
  \<^verbatim>\<open>ValueError\<close> when two rows carry the same \<^verbatim>\<open>stop_id\<close>.
\<close>

definition build_graph ::
  "stop_row list \<Rightarrow> trip_edge_row list \<Rightarrow> (string \<times> string \<times> int) list \<Rightarrow> py_error + digraph" where
  "build_graph stops_df trip_edges_df transfer_edges_df =
     (if \<not> distinct (map stop_id stops_df) then Inl ValueError
      else
        let stop_name_map = map (\<lambda>r. (stop_id r, stop_name r)) stops_df;
            stop_coords = map (\<lambda>r. (stop_id r, (stop_lat r, stop_lon r))) stops_df;
            G0 = add_nodes_from DiGraph (map stop_id stops_df);
            G1 = foldl set_name G0 stop_name_map;
            G2 = foldl set_coords G1 stop_coords;
            G3 = foldl add_trip_edge G2 trip_edges_df;
            G4 = foldl add_transfer_edge G3 transfer_edges_df
        in Inr G4)"

text \<open>Loading: the transfer frame is the result of the transfer query.\<close>

definition load_graph ::
  "stop_row list \<Rightarrow> trip_edge_row list \<Rightarrow> transfer_rec list \<Rightarrow> py_error + digraph" where
  "load_graph stops_df trip_edges_df transfers =
     build_graph stops_df trip_edges_df (transfer_query transfers)"

section \<open>The heuristic\<close>

definition SUBWAY_SPEED_MPS :: real where
  "SUBWAY_SPEED_MPS = 10"

definition R :: real where
  "R = 6371000"

definition radians :: "real \<Rightarrow> real" where
  "radians x = x * pi / 180"

text \<open>\<^verbatim>\<open>math.atan2(y, x)\<close> on real numbers.\<close>

definition atan2 :: "real \<Rightarrow> real \<Rightarrow> real" where
  "atan2 y x =
     (if x > 0 then arctan (y / x)
      else if x < 0 then (if y \<ge> 0 then arctan (y / x) + pi else arctan (y / x) - pi)
      else if y > 0 then pi / 2
      else if y < 0 then - (pi / 2)
      else 0)"

text \<open>The quantity \<^verbatim>\<open>a\<close> of \<^verbatim>\<open>haversine\<close>, and the function on finite floats.\<close>

definition haversine_a :: "real \<Rightarrow> real \<Rightarrow> real \<Rightarrow> real \<Rightarrow> real" where
  "haversine_a lat1 lon1 lat2 lon2 =
     (let phi1 = radians lat1; phi2 = radians lat2;
          dphi = radians (lat2 - lat1);
          dlambda = radians (lon2 - lon1)
      in (sin (dphi / 2))\<^sup>2 + cos phi1 * cos phi2 * (sin (dlambda / 2))\<^sup>2)"

definition haversine_real :: "real \<Rightarrow> real \<Rightarrow> real \<Rightarrow> real \<Rightarrow> real" where
  "haversine_real lat1 lon1 lat2 lon2 =
     (let a = haversine_a lat1 lon1 lat2 lon2;
          c = 2 * atan2 (sqrt a) (sqrt (1 - a))
      in R * c)"

text \<open>
  \<^verbatim>\<open>haversine\<close> on Python floats: every operation of the body carries a \<^verbatim>\<open>nan\<close>
  argument through to the result.
\<close>

fun haversine :: "pyfloat \<Rightarrow> pyfloat \<Rightarrow> pyfloat \<Rightarrow> pyfloat \<Rightarrow> pyfloat" where
  "haversine (Fin lat1) (Fin lon1) (Fin lat2) (Fin lon2) = Fin (haversine_real lat1 lon1 lat2 lon2)"
| "haversine _ _ _ _ = NaN"

fun fdiv :: "pyfloat \<Rightarrow> real \<Rightarrow> pyfloat" where
  "fdiv (Fin x) d = Fin (x / d)"
| "fdiv NaN d = NaN"

text \<open>
  The closure \<^verbatim>\<open>heuristic(u, v)\<close>: \<^verbatim>\<open>G.nodes[u]['coords']\<close> raises \<^verbatim>\<open>KeyError\<close>
  when \<open>u\<close> is no node or the node has no \<^verbatim>\<open>coords\<close> attribute; the handler returns 0.
\<close>

definition node_coords :: "digraph \<Rightarrow> string \<Rightarrow> py_error + (pyfloat \<times> pyfloat)" where
  "node_coords G u =
     (case map_of (nodes G) u of
        None \<Rightarrow> Inl KeyError
      | Some a \<Rightarrow> (case coords a of None \<Rightarrow> Inl KeyError | Some c \<Rightarrow> Inr c))"

definition heuristic :: "digraph \<Rightarrow> string \<Rightarrow> string \<Rightarrow> pyfloat" where
  "heuristic G u v =
     (case node_coords G u of
        Inl e \<Rightarrow> Fin 0
      | Inr u_coords \<Rightarrow>
          (case node_coords G v of
             Inl e \<Rightarrow> Fin 0
           | Inr v_coords \<Rightarrow>
               fdiv (haversine (fst u_coords) (snd u_coords) (fst v_coords) (snd v_coords))
                 SUBWAY_SPEED_MPS))"

section \<open>The priority queue (\<^verbatim>\<open>heapq\<close>)\<close>

text \<open>
  The search keeps its frontier in a Python list ordered by \<^verbatim>\<open>heapq\<close>. A queue
  entry is the tuple (priority, counter, node, cost to reach, parent). Tuples compare
  lexicographically: the first position where the components are not \<^verbatim>\<open>==\<close> decides
  by \<^verbatim>\<open><\<close>. A \<^verbatim>\<open>nan\<close> priority is equal to nothing and less than nothing. The
  counters come from \<^verbatim>\<open>itertools.count()\<close> and no two entries share one, so the
  comparison never goes past the counter.
\<close>

type_synonym entry = "pyfloat \<times> nat \<times> string \<times> int \<times> string option"

fun py_eq :: "pyfloat \<Rightarrow> pyfloat \<Rightarrow> bool" where
  "py_eq (Fin a) (Fin b) = (a = b)"
| "py_eq _ _ = False"

fun py_lt :: "pyfloat \<Rightarrow> pyfloat \<Rightarrow> bool" where
  "py_lt (Fin a) (Fin b) = (a < b)"
| "py_lt _ _ = False"

definition entry_lt :: "entry \<Rightarrow> entry \<Rightarrow> bool" where
  "entry_lt x y =
     (if py_eq (fst x) (fst y) then fst (snd x) < fst (snd y) else py_lt (fst x) (fst y))"

text \<open>
  \<^verbatim>\<open>heapq._siftdown(heap, startpos, pos)\<close>: the item at \<open>pos\<close> moves towards the root
  while it is smaller than its parent.
\<close>

function siftdown_loop :: "entry \<Rightarrow> entry list \<Rightarrow> nat \<Rightarrow> nat \<Rightarrow> entry list" where
  "siftdown_loop newitem heap startpos pos =
     (if pos > startpos then
        (let parentpos = (pos - 1) div 2;
             parent = heap ! parentpos
         in if entry_lt newitem parent
            then siftdown_loop newitem (heap[pos := parent]) startpos parentpos
            else heap[pos := newitem])
      else heap[pos := newitem])"
  by pat_completeness auto
termination
  by (relation "measure (\<lambda>(newitem, heap, startpos, pos). pos)") auto

declare siftdown_loop.simps [simp del]

definition siftdown :: "entry list \<Rightarrow> nat \<Rightarrow> nat \<Rightarrow> entry list" where
  "siftdown heap startpos pos = siftdown_loop (heap ! pos) heap startpos pos"

text \<open>
  \<^verbatim>\<open>heapq._siftup(heap, pos)\<close>: the smaller child moves up until a leaf is reached,
  then the item is put there and sifted down. The indices stay inside the list, so no
  read is out of range.
\<close>

function siftup_loop :: "entry list \<Rightarrow> nat \<Rightarrow> entry list \<times> nat" where
  "siftup_loop heap pos =
     (let endpos = length heap; childpos = 2 * pos + 1
      in if childpos < endpos then
           (let rightpos = childpos + 1;
                childpos' = (if rightpos < endpos \<and> \<not> entry_lt (heap ! childpos) (heap ! rightpos)
                             then rightpos else childpos)
            in siftup_loop (heap[pos := heap ! childpos']) childpos')
         else (heap, pos))"
  by pat_completeness auto
termination
  by (relation "measure (\<lambda>(heap, pos). length heap - pos)") (auto simp: Let_def)

declare siftup_loop.simps [simp del]

definition siftup :: "entry list \<Rightarrow> nat \<Rightarrow> entry list" where
  "siftup heap pos =
     (let newitem = heap ! pos;
          hp = siftup_loop heap pos
      in siftdown_loop newitem (fst hp) pos (snd hp))"

definition heappush :: "entry list \<Rightarrow> entry \<Rightarrow> entry list" where
  "heappush heap item = siftdown (heap @ [item]) 0 (length heap)"

text \<open>\<^verbatim>\<open>heappop\<close> is only called on a non-empty list (the loop tests \<^verbatim>\<open>while queue\<close>).\<close>

definition heappop :: "entry list \<Rightarrow> entry \<times> entry list" where
  "heappop heap =
     (let lastelt = last heap; heap' = butlast heap
      in if heap' \<noteq> [] then (hd heap', siftup (heap'[0 := lastelt]) 0)
         else (lastelt, []))"

section \<open>The search (networkx \<^verbatim>\<open>astar_path\<close> and \<^verbatim>\<open>astar_path_length\<close>)\<close>

record astar_state =
  queue :: "entry list"
  counter :: nat
  enqueued :: "string \<rightharpoonup> int \<times> pyfloat"
  explored :: "string \<rightharpoonup> string option"

text \<open>Adding an integer cost and a float heuristic value.\<close>

fun fadd :: "int \<Rightarrow> pyfloat \<Rightarrow> pyfloat" where
  "fadd n (Fin x) = Fin (real_of_int n + x)"
| "fadd n NaN = NaN"

definition push_neighbor ::
  "astar_state \<Rightarrow> string \<Rightarrow> int \<Rightarrow> pyfloat \<Rightarrow> string \<Rightarrow> astar_state" where
  "push_neighbor st neighbor ncost h curnode =
     st\<lparr>enqueued := (enqueued st)(neighbor \<mapsto> (ncost, h)),
        queue := heappush (queue st) (fadd ncost h, counter st, neighbor, ncost, Some curnode),
        counter := counter st + 1\<rparr>"

text \<open>
  One turn of \<^verbatim>\<open>for neighbor, w in G_succ[curnode].items()\<close>. The weight function
  reads the attribute \<^verbatim>\<open>weight\<close>, which every edge of the builder carries; no cutoff
  is passed.
\<close>

definition relax ::
  "(string \<Rightarrow> string \<Rightarrow> pyfloat) \<Rightarrow> string \<Rightarrow> string \<Rightarrow> int \<Rightarrow> astar_state \<Rightarrow>
     string \<times> edge_attrs \<Rightarrow> astar_state" where
  "relax heur target curnode dst st nw =
     (let neighbor = fst nw; cost = weight (snd nw); ncost = dst + cost
      in case enqueued st neighbor of
           Some (qcost, h) \<Rightarrow>
             if qcost \<le> ncost then st else push_neighbor st neighbor ncost h curnode
         | None \<Rightarrow> push_neighbor st neighbor ncost (heur neighbor target) curnode)"

text \<open>
  Path reconstruction: \<^verbatim>\<open>while node is not None: path.append(node); node = explored[node]\<close>,
  then \<^verbatim>\<open>path.reverse()\<close>. The loop follows parent links for as long as there are any,
  so the model is a partial function: \<open>None\<close> is a loop that never ends.
\<close>

partial_function (option) reconstruct ::
  "(string \<rightharpoonup> string option) \<Rightarrow> string option \<Rightarrow> string list \<Rightarrow> (py_error + string list) option" where
  "reconstruct expl node path =
     (case node of
        None \<Rightarrow> Some (Inr (rev path))
      | Some n \<Rightarrow>
          (case expl n of
             None \<Rightarrow> Some (Inl KeyError)
           | Some p \<Rightarrow> reconstruct expl p (path @ [n])))"

text \<open>
  The test at the head of the loop body: an entry is skipped (\<^verbatim>\<open>continue\<close>) when its
  node is explored already and either is the start node (parent \<^verbatim>\<open>None\<close>) or was
  enqueued again with a smaller cost. \<^verbatim>\<open>enqueued[curnode]\<close> raises \<^verbatim>\<open>KeyError\<close>
  when the node was never enqueued.
\<close>

definition skip_entry :: "astar_state \<Rightarrow> string \<Rightarrow> int \<Rightarrow> py_error + bool" where
  "skip_entry st curnode dst =
     (case explored st curnode of
        None \<Rightarrow> Inr False
      | Some None \<Rightarrow> Inr True
      | Some (Some p) \<Rightarrow>
          (case enqueued st curnode of
             None \<Rightarrow> Inl KeyError
           | Some (qcost, h) \<Rightarrow> Inr (qcost < dst)))"

text \<open>
  The loop \<^verbatim>\<open>while queue:\<close> of \<^verbatim>\<open>astar_path\<close>. It runs for as long as the queue is
  not empty, so the model is a partial function: \<open>None\<close> is a search that never ends.
\<close>

partial_function (option) astar_loop ::
  "digraph \<Rightarrow> (string \<Rightarrow> string \<Rightarrow> pyfloat) \<Rightarrow> string \<Rightarrow> astar_state \<Rightarrow> (py_error + string list) option" where
  "astar_loop G heur target st =
     (if queue st = [] then Some (Inl NetworkXNoPath)
      else
        (case heappop (queue st) of
           ((prio, cnt, curnode, dst, parent), q) \<Rightarrow>
             if curnode = target then reconstruct (explored st) parent [curnode]
             else
               (case skip_entry st curnode dst of
                  Inl e \<Rightarrow> Some (Inl e)
                | Inr skip \<Rightarrow>
                    if skip then astar_loop G heur target (st\<lparr>queue := q\<rparr>)
                    else
                      (case map_of (adj G) curnode of
                         None \<Rightarrow> Some (Inl KeyError)
                       | Some row \<Rightarrow>
                           astar_loop G heur target
                             (foldl (relax heur target curnode dst)
                                (st\<lparr>queue := q, explored := (explored st)(curnode \<mapsto> parent)\<rparr>)
                                row)))))"

declare reconstruct.simps [code]
declare astar_loop.simps [code]

definition astar_init :: "string \<Rightarrow> astar_state" where
  "astar_init source =
     \<lparr>queue = [(Fin 0, 0, source, 0, None)], counter = 1,
      enqueued = Map.empty, explored = Map.empty\<rparr>"

definition astar_path ::
  "digraph \<Rightarrow> string \<Rightarrow> string \<Rightarrow> (string \<Rightarrow> string \<Rightarrow> pyfloat) \<Rightarrow> (py_error + string list) option" where
  "astar_path G source target heur =
     (if \<not> has_node G source then Some (Inl NodeNotFound)
      else if \<not> has_node G target then Some (Inl NodeNotFound)
      else astar_loop G heur target (astar_init source))"

text \<open>
  \<^verbatim>\<open>sum(weight(u, v, G[u][v]) for u, v in pairwise(path))\<close>; \<^verbatim>\<open>G[u][v]\<close> raises
  \<^verbatim>\<open>KeyError\<close> when there is no such edge.
\<close>

fun path_weight :: "digraph \<Rightarrow> string list \<Rightarrow> py_error + int" where
  "path_weight G (u # v # rest) =
     (case get_edge G u v of
        None \<Rightarrow> Inl KeyError
      | Some d \<Rightarrow> (case path_weight G (v # rest) of Inl e \<Rightarrow> Inl e | Inr s \<Rightarrow> Inr (weight d + s)))"
| "path_weight G _ = Inr 0"

definition astar_path_length ::
  "digraph \<Rightarrow> string \<Rightarrow> string \<Rightarrow> (string \<Rightarrow> string \<Rightarrow> pyfloat) \<Rightarrow> (py_error + int) option" where
  "astar_path_length G source target heur =
     (if \<not> has_node G source \<or> \<not> has_node G target then Some (Inl NodeNotFound)
      else
        (case astar_path G source target heur of
           None \<Rightarrow> None
         | Some (Inl e) \<Rightarrow> Some (Inl e)
         | Some (Inr path) \<Rightarrow> Some (path_weight G path)))"

section \<open>The route query\<close>

text \<open>
  Part 5 of \<^verbatim>\<open>build_network_and_predict\<close> for a start and an end node (the script
  fixes them to two station ids). The outcome is what the script reports: the route with
  its total time, the message that no path was found, the message that a node is not in
  the graph, or an exception that no handler catches. The lines that print the route are
  not part of the model.
\<close>

datatype report =
    Route "string list" int
  | No_path_found
  | Node_not_found
  | Uncaught py_error

definition plan_route :: "digraph \<Rightarrow> string \<Rightarrow> string \<Rightarrow> report option" where
  "plan_route G start_node end_node =
     (if has_node G start_node \<and> has_node G end_node then
        (case astar_path G start_node end_node (heuristic G) of
           None \<Rightarrow> None
         | Some (Inl e) \<Rightarrow> Some (if e = NetworkXNoPath then No_path_found else Uncaught e)
         | Some (Inr path) \<Rightarrow>
             (case astar_path_length G start_node end_node (heuristic G) of
                None \<Rightarrow> None
              | Some (Inl e) \<Rightarrow> Some (if e = NetworkXNoPath then No_path_found else Uncaught e)
              | Some (Inr total_seconds) \<Rightarrow> Some (Route path total_seconds)))
      else Some Node_not_found)"

section \<open>Notions used in the statements\<close>

text \<open>The list of ordered pairs that carry an edge, as \<^verbatim>\<open>G.edges\<close> lists them.\<close>

definition edges :: "digraph \<Rightarrow> (string \<times> string) list" where
  "edges G = concat (map (\<lambda>(u, row). map (\<lambda>(v, d). (u, v)) row) (adj G))"

text \<open>The representation invariant of the two dictionaries of a graph.\<close>

definition graph_inv :: "digraph \<Rightarrow> bool" where
  "graph_inv G \<longleftrightarrow>
     distinct (map fst (nodes G)) \<and> distinct (map fst (adj G)) \<and>
     map fst (adj G) = map fst (nodes G) \<and>
     (\<forall>(u, row) \<in> set (adj G). distinct (map fst row) \<and> (\<forall>v \<in> fst ` set row. has_node G v))"

text \<open>The \<^verbatim>\<open>route\<close> attribute of an edge dictionary that may not exist.\<close>

definition route_of :: "edge_attrs option \<Rightarrow> string option" where
  "route_of old = (case old of None \<Rightarrow> None | Some d \<Rightarrow> route d)"

text \<open>The graph after the nodes and their attributes are set, before any edge.\<close>

definition station_graph :: "stop_row list \<Rightarrow> digraph" where
  "station_graph stops_df =
     foldl set_coords
       (foldl set_name (add_nodes_from DiGraph (map stop_id stops_df))
          (map (\<lambda>r. (stop_id r, stop_name r)) stops_df))
       (map (\<lambda>r. (stop_id r, (stop_lat r, stop_lon r))) stops_df)"







text \<open>
  The measure of the loop: the best cost under which each node was enqueued (infinite
  when it never was), node by node, and then the length of the queue.
\<close>

definition cost_of :: "astar_state \<Rightarrow> string \<Rightarrow> enat" where
  "cost_of st n = (case enqueued st n of None \<Rightarrow> \<infinity> | Some (c, h) \<Rightarrow> enat (nat c))"

definition cost_vec :: "digraph \<Rightarrow> astar_state \<Rightarrow> enat list" where
  "cost_vec G st = map (cost_of st) (map fst (nodes G))"


text \<open>The components of a queue entry.\<close>

fun entry_prio :: "entry \<Rightarrow> pyfloat" where "entry_prio (p, c, n, d, par) = p"
fun entry_count :: "entry \<Rightarrow> nat" where "entry_count (p, c, n, d, par) = c"




text \<open>
  The order of the queue: an entry is at most another when the other is not less than
  it. An entry is numeric when its priority is no \<^verbatim>\<open>nan\<close>; on numeric entries the
  order is total and transitive. A list is a heap when no entry is less than its
  parent; a heap with a hole at a position is one where this holds away from it.
\<close>

definition entry_le :: "entry \<Rightarrow> entry \<Rightarrow> bool" where
  "entry_le x y \<longleftrightarrow> \<not> entry_lt y x"

definition num_entry :: "entry \<Rightarrow> bool" where
  "num_entry e \<longleftrightarrow> (\<exists>a. entry_prio e = Fin a)"

definition heap_ok :: "entry list \<Rightarrow> bool" where
  "heap_ok h \<longleftrightarrow> (\<forall>i < length h. 0 < i \<longrightarrow> entry_le (h ! ((i - 1) div 2)) (h ! i))"

definition hole_ok :: "entry list \<Rightarrow> nat \<Rightarrow> bool" where
  "hole_ok h pos \<longleftrightarrow>
     pos < length h \<and>
     (\<forall>i < length h. 0 < i \<longrightarrow> i \<noteq> pos \<longrightarrow> (i - 1) div 2 \<noteq> pos \<longrightarrow>
        entry_le (h ! ((i - 1) div 2)) (h ! i)) \<and>
     (\<forall>c < length h. 0 < c \<longrightarrow> (c - 1) div 2 = pos \<longrightarrow> 0 < pos \<longrightarrow>
        entry_le (h ! ((pos - 1) div 2)) (h ! c))"


section \<open>Properties of the graph builder\<close>

lemma map_of_nodes_add_node:
  "map_of (nodes (add_node G n)) m =
     (if has_node G n then map_of (nodes G) m
      else if m = n then Some \<lparr>name = None, coords = None\<rparr> else map_of (nodes G) m)"
  by (auto simp: add_node_def has_node_def map_of_append map_add_def split: option.splits)

lemma has_node_add_node: "has_node (add_node G n) m \<longleftrightarrow> has_node G m \<or> m = n"
  unfolding has_node_def[of "add_node G n"] map_of_nodes_add_node
  by (auto simp: has_node_def)

lemma succs_add_node: "succs (add_node G n) u = succs G u"
  by (auto simp: add_node_def succs_def map_of_append map_add_def split: option.splits)

lemma get_edge_add_node: "get_edge (add_node G n) u v = get_edge G u v"
  by (simp add: get_edge_def succs_add_node)

lemma nodes_add_edge: "nodes (add_edge G u v w t r) = nodes (add_node (add_node G u) v)"
  by (simp add: add_edge_def Let_def)

lemma has_node_add_edge: "has_node (add_edge G u v w t r) m \<longleftrightarrow> has_node G m \<or> m = u \<or> m = v"
proof -
  have "has_node (add_edge G u v w t r) m = has_node (add_node (add_node G u) v) m"
    by (simp add: has_node_def nodes_add_edge)
  then show ?thesis by (auto simp: has_node_add_node)
qed

lemma succs_add_edge:
  "succs (add_edge G u v w t r) u' =
     (if u' = u then AList.update v (merge_attrs (get_edge G u v) w t r) (succs G u) else succs G u')"
proof -
  let ?G' = "add_node (add_node G u) v"
  have s: "\<And>x. succs ?G' x = succs G x" by (simp add: succs_add_node)
  have e: "get_edge ?G' u v = get_edge G u v" by (simp add: get_edge_add_node)
  have "succs (add_edge G u v w t r) u' =
     (if u' = u then AList.update v (merge_attrs (get_edge ?G' u v) w t r) (succs ?G' u) else succs ?G' u')"
    by (simp add: add_edge_def Let_def succs_def[of "_\<lparr>adj := _\<rparr>"] update_conv')
       (simp add: succs_def)
  then show ?thesis by (simp only: e s)
qed

lemma get_edge_add_edge:
  "get_edge (add_edge G u v w t r) u' v' =
     (if u' = u \<and> v' = v then Some (merge_attrs (get_edge G u v) w t r) else get_edge G u' v')"
  by (simp add: get_edge_def[of "add_edge G u v w t r"] succs_add_edge update_conv')
     (simp add: get_edge_def)


lemma foldl_invariant:
  assumes "P a" and "\<And>a x. x \<in> set xs \<Longrightarrow> P a \<Longrightarrow> P (f a x)"
  shows "P (foldl f a xs)"
  using assms by (induction xs arbitrary: a) auto

lemma has_node_iff: "has_node G n \<longleftrightarrow> n \<in> set (map fst (nodes G))"
  by (auto simp: has_node_def map_of_eq_None_iff)

lemma graph_inv_add_node: "graph_inv G \<Longrightarrow> graph_inv (add_node G n)"
  unfolding graph_inv_def
  by (auto simp: add_node_def has_node_iff)

lemma graph_inv_update_nodes:
  assumes "graph_inv G" "map_of (nodes G) k = Some a"
  shows "graph_inv (G\<lparr>nodes := AList.update k a' (nodes G)\<rparr>)"
proof -
  have "(k, a) \<in> set (nodes G)" using assms(2) by (rule map_of_SomeD)
  then have "k \<in> fst ` set (nodes G)" by force
  then have k: "map fst (AList.update k a' (nodes G)) = map fst (nodes G)"
    by (simp add: update_keys)
  have hn: "\<And>x. has_node (G\<lparr>nodes := AList.update k a' (nodes G)\<rparr>) x = has_node G x"
    by (simp add: has_node_iff k)
  show ?thesis using assms(1) unfolding graph_inv_def hn by (simp add: k)
qed

lemma graph_inv_set_name: "graph_inv G \<Longrightarrow> graph_inv (set_name G kv)"
  unfolding set_name_def by (auto split: option.splits intro: graph_inv_update_nodes)

lemma graph_inv_set_coords: "graph_inv G \<Longrightarrow> graph_inv (set_coords G kv)"
  unfolding set_coords_def by (auto split: option.splits intro: graph_inv_update_nodes)

lemma map_of_adj_Some:
  assumes "graph_inv G" "has_node G u"
  shows "\<exists>row. map_of (adj G) u = Some row"
proof -
  have "u \<in> set (map fst (adj G))" using assms by (simp add: graph_inv_def has_node_iff)
  then have "map_of (adj G) u \<noteq> None" by (simp add: map_of_eq_None_iff)
  then show ?thesis by blast
qed

lemma graph_inv_add_edge_aux:
  assumes "graph_inv G" "has_node G u" "has_node G v"
  shows "graph_inv (G\<lparr>adj := AList.update u (AList.update v d (succs G u)) (adj G)\<rparr>)"
proof -
  obtain row where row: "map_of (adj G) u = Some row" using map_of_adj_Some assms by blast
  then have s: "succs G u = row" by (simp add: succs_def)
  have rowin: "(u, row) \<in> set (adj G)" using row by (rule map_of_SomeD)
  have k: "map fst (AList.update u (AList.update v d row) (adj G)) = map fst (adj G)"
    using rowin by (auto simp: update_keys image_iff intro: rev_bexI)
  have hn: "\<And>x. has_node (G\<lparr>adj := AList.update u (AList.update v d row) (adj G)\<rparr>) x = has_node G x"
    by (simp add: has_node_def)
  have "\<And>u' row'. (u', row') \<in> set (AList.update u (AList.update v d row) (adj G)) \<Longrightarrow>
          distinct (map fst row') \<and> (\<forall>x \<in> fst ` set row'. has_node G x)"
  proof -
    fix u' row' assume a: "(u', row') \<in> set (AList.update u (AList.update v d row) (adj G))"
    have dk: "distinct (map fst (AList.update u (AList.update v d row) (adj G)))"
      using assms(1) by (simp add: graph_inv_def distinct_update)
    from a dk have m: "map_of (AList.update u (AList.update v d row) (adj G)) u' = Some row'"
      by simp
    show "distinct (map fst row') \<and> (\<forall>x \<in> fst ` set row'. has_node G x)"
    proof (cases "u' = u")
      case True
      with m have "row' = AList.update v d row" by (simp add: update_conv')
      moreover have "distinct (map fst row) \<and> (\<forall>x \<in> fst ` set row. has_node G x)"
        using assms(1) rowin unfolding graph_inv_def by blast
      ultimately show ?thesis using assms(3) by (auto simp: distinct_update dom_update)
    next
      case False
      with m have "map_of (adj G) u' = Some row'" by (simp add: update_conv')
      then have "(u', row') \<in> set (adj G)" by (rule map_of_SomeD)
      then show ?thesis using assms(1) unfolding graph_inv_def by blast
    qed
  qed
  then show ?thesis
    using assms(1) unfolding graph_inv_def s
    by (simp add: k hn del: has_node_def) blast
qed

lemma graph_inv_add_edge: "graph_inv G \<Longrightarrow> graph_inv (add_edge G u v w t r)"
  unfolding add_edge_def Let_def
  by (rule graph_inv_add_edge_aux) (auto simp: graph_inv_add_node has_node_add_node)

lemma graph_inv_DiGraph: "graph_inv DiGraph"
  by (simp add: graph_inv_def DiGraph_def)

lemma graph_inv_build:
  assumes "build_graph stops trips xfers = Inr G"
  shows "graph_inv G"
proof -
  let ?G0 = "add_nodes_from DiGraph (map stop_id stops)"
  let ?G1 = "foldl set_name ?G0 (map (\<lambda>r. (stop_id r, stop_name r)) stops)"
  let ?G2 = "foldl set_coords ?G1 (map (\<lambda>r. (stop_id r, (stop_lat r, stop_lon r))) stops)"
  let ?G3 = "foldl add_trip_edge ?G2 trips"
  let ?G4 = "foldl add_transfer_edge ?G3 xfers"
  have G: "G = ?G4" using assms by (simp add: build_graph_def Let_def split: if_splits)
  have 0: "graph_inv ?G0"
    unfolding add_nodes_from_def by (rule foldl_invariant) (simp_all add: graph_inv_DiGraph graph_inv_add_node)
  have 1: "graph_inv ?G1"
    by (rule foldl_invariant) (simp_all add: 0 graph_inv_set_name)
  have 2: "graph_inv ?G2"
    by (rule foldl_invariant) (simp_all add: 1 graph_inv_set_coords)
  have 3: "graph_inv ?G3"
    by (rule foldl_invariant) (simp_all add: 2 add_trip_edge_def graph_inv_add_edge)
  have 4: "graph_inv ?G4"
    by (rule foldl_invariant) (simp_all add: 3 add_transfer_edge_def graph_inv_add_edge split: prod.splits)
  show ?thesis unfolding G by (rule 4)
qed

lemma distinct_concat_rows:
  "distinct (map fst al) \<Longrightarrow> (\<forall>(u, row) \<in> set al. distinct (map fst row)) \<Longrightarrow>
     distinct (concat (map (\<lambda>(u, row). map (\<lambda>(v, d). (u, v)) row) al))"
proof (induction al)
  case Nil then show ?case by simp
next
  case (Cons a al)
  obtain u row where a: "a = (u, row)" by (cases a)
  have "map (\<lambda>(v, d). (u, v)) row = map (Pair u) (map fst row)"
    by (induction row) auto
  moreover have "distinct (map fst row)" using Cons.prems(2) a by simp
  ultimately have d1: "distinct (map (\<lambda>(v, d). (u, v)) row)"
    by (simp add: distinct_map inj_on_def del: map_map)
  have d2: "set (map (\<lambda>(v, d). (u, v)) row) \<inter>
      set (concat (map (\<lambda>(u, row). map (\<lambda>(v, d). (u, v)) row) al)) = {}"
  proof (rule ccontr)
    assume "\<not> ?thesis"
    then obtain x where 1: "x \<in> set (map (\<lambda>(v, d). (u, v)) row)"
      and 2: "x \<in> set (concat (map (\<lambda>(u, row). map (\<lambda>(v, d). (u, v)) row) al))" by blast
    from 1 have "fst x = u" by auto
    moreover from 2 have "fst x \<in> fst ` set al" by force
    ultimately show False using Cons.prems(1) a by simp
  qed
  have "distinct (concat (map (\<lambda>(u, row). map (\<lambda>(v, d). (u, v)) row) al))"
    using Cons by simp
  then show ?case unfolding a using d1 d2 by (simp del: set_map set_concat)
qed

lemma distinct_edges: "graph_inv G \<Longrightarrow> distinct (edges G)"
  unfolding edges_def graph_inv_def by (intro distinct_concat_rows) blast+

lemma get_edge_set_name: "get_edge (set_name G kv) u v = get_edge G u v"
  by (simp add: set_name_def get_edge_def succs_def split: option.splits)

lemma get_edge_set_coords: "get_edge (set_coords G kv) u v = get_edge G u v"
  by (simp add: set_coords_def get_edge_def succs_def split: option.splits)

lemma has_node_set_name: "has_node (set_name G kv) n = has_node G n"
  by (auto simp: set_name_def has_node_def update_conv' split: option.splits)

lemma has_node_set_coords: "has_node (set_coords G kv) n = has_node G n"
  by (auto simp: set_coords_def has_node_def update_conv' split: option.splits)

lemma has_node_add_trip_edge:
  "has_node (add_trip_edge G row) n \<longleftrightarrow> has_node G n \<or> n = seg_from_stop_id row \<or> n = seg_to_stop_id row"
  by (simp add: add_trip_edge_def has_node_add_edge)

lemma has_node_add_transfer_edge: "has_node (add_transfer_edge G row) n = has_node G n"
  by (auto simp: add_transfer_edge_def has_node_add_edge split: prod.splits)

lemma has_node_foldl_transfer: "has_node (foldl add_transfer_edge G rows) n = has_node G n"
  by (induction rows arbitrary: G) (simp_all add: has_node_add_transfer_edge)

lemma has_node_foldl_trip:
  "has_node (foldl add_trip_edge G trips) n \<longleftrightarrow>
     has_node G n \<or> n \<in> seg_from_stop_id ` set trips \<or> n \<in> seg_to_stop_id ` set trips"
  by (induction trips arbitrary: G) (auto simp: has_node_add_trip_edge)

lemma get_edge_add_trip_edge:
  "get_edge (add_trip_edge G r) f t =
     (if seg_from_stop_id r = f \<and> seg_to_stop_id r = t
      then Some \<lparr>weight = seg_weight r, etype = travel, route = Some (seg_route_id r)\<rparr>
      else get_edge G f t)"
  by (auto simp: add_trip_edge_def get_edge_add_edge merge_attrs_def)

lemma get_edge_add_transfer_edge:
  "get_edge (add_transfer_edge G (a, b, w)) f t =
     (if a = f \<and> b = t \<and> has_node G f \<and> has_node G t
      then Some \<lparr>weight = w, etype = transfer, route = route_of (get_edge G f t)\<rparr>
      else get_edge G f t)"
  by (auto simp: add_transfer_edge_def get_edge_add_edge merge_attrs_def route_of_def)

lemma get_edge_foldl_trip:
  "get_edge (foldl add_trip_edge G trips) f t =
     (let ms = filter (\<lambda>r. seg_from_stop_id r = f \<and> seg_to_stop_id r = t) trips
      in if ms = [] then get_edge G f t
         else Some \<lparr>weight = seg_weight (last ms), etype = travel,
                     route = Some (seg_route_id (last ms))\<rparr>)"
proof (induction trips rule: rev_induct)
  case Nil then show ?case by simp
next
  case (snoc r trips)
  show ?case
    by (simp add: snoc Let_def get_edge_add_trip_edge)
qed

lemma get_edge_foldl_transfer:
  assumes "has_node G f" "has_node G t"
  shows "get_edge (foldl add_transfer_edge G rows) f t =
     (let ms = filter (\<lambda>r. fst r = f \<and> fst (snd r) = t) rows
      in if ms = [] then get_edge G f t
         else Some \<lparr>weight = snd (snd (last ms)), etype = transfer,
                     route = route_of (get_edge G f t)\<rparr>)"
proof (induction rows rule: rev_induct)
  case Nil then show ?case by simp
next
  case (snoc r rows)
  obtain a b w where r: "r = (a, b, w)" by (cases r)
  have hn: "has_node (foldl add_transfer_edge G rows) f" "has_node (foldl add_transfer_edge G rows) t"
    using assms by (simp_all add: has_node_foldl_transfer)
  show ?case
    by (simp add: snoc r Let_def get_edge_add_transfer_edge hn route_of_def)
qed

lemma build_graph_Inr:
  "build_graph stops trips xfers = Inr G \<longleftrightarrow>
     distinct (map stop_id stops) \<and>
     G = foldl add_transfer_edge (foldl add_trip_edge (station_graph stops) trips) xfers"
  by (auto simp: build_graph_def station_graph_def Let_def)

lemma get_edge_DiGraph: "get_edge DiGraph u v = None"
  by (simp add: get_edge_def succs_def DiGraph_def)

lemma get_edge_station_graph: "get_edge (station_graph stops) u v = None"
proof -
  have 0: "get_edge (add_nodes_from DiGraph (map stop_id stops)) u v = None"
    unfolding add_nodes_from_def
    by (rule foldl_invariant[where P = "\<lambda>G. get_edge G u v = None"])
       (simp_all add: get_edge_DiGraph get_edge_add_node)
  have 1: "get_edge (foldl set_name (add_nodes_from DiGraph (map stop_id stops))
          (map (\<lambda>r. (stop_id r, stop_name r)) stops)) u v = None"
    by (rule foldl_invariant[where P = "\<lambda>G. get_edge G u v = None"])
       (simp_all add: 0 get_edge_set_name)
  show ?thesis unfolding station_graph_def
    by (rule foldl_invariant[where P = "\<lambda>G. get_edge G u v = None"])
       (simp_all add: 1 get_edge_set_coords)
qed

lemma has_node_foldl_add_node:
  "has_node (foldl add_node G ns) n \<longleftrightarrow> has_node G n \<or> n \<in> set ns"
  by (induction ns arbitrary: G) (auto simp: has_node_add_node)

lemma has_node_foldl_set_name: "has_node (foldl set_name G xs) n = has_node G n"
  by (induction xs arbitrary: G) (simp_all add: has_node_set_name)

lemma has_node_foldl_set_coords: "has_node (foldl set_coords G xs) n = has_node G n"
  by (induction xs arbitrary: G) (simp_all add: has_node_set_coords)

lemma has_node_station_graph: "has_node (station_graph stops) n \<longleftrightarrow> n \<in> stop_id ` set stops"
proof -
  have "\<not> has_node DiGraph n" by (simp add: has_node_def DiGraph_def)
  then show ?thesis
    by (simp add: station_graph_def has_node_foldl_set_coords has_node_foldl_set_name
      add_nodes_from_def has_node_foldl_add_node)
qed

lemma filter_transfer_query:
  "f \<noteq> t \<Longrightarrow> filter (\<lambda>r. fst r = f \<and> fst (snd r) = t) (transfer_query transfers) =
     map (\<lambda>r. (from_stop_id r, to_stop_id r, transfer_weight (min_transfer_time r)))
       (filter (\<lambda>x. from_stop_id x = f \<and> to_stop_id x = t) transfers)"
  by (induction transfers) (auto simp: transfer_query_def)


text \<open>
  Claim C2, as the code has it. After the graph builder has run, no ordered pair of
  stations occurs twice among the edges. When a Travel row and a Transfer record share
  an ordered pair of two different stations, the edge that remains has kind
  \<open>transfer\<close> and the weight of the last such Transfer record; the \<^verbatim>\<open>route\<close>
  attribute of the last Travel row for the pair stays on it, because
  \<^verbatim>\<open>add_edge\<close> updates the attribute dictionary of an existing edge.
\<close>

theorem transfer_overwrites_travel:
  assumes "load_graph stops_df trip_edges_df transfers = Inr G"
  shows "distinct (edges G) \<and>
    (\<forall>f t. f \<noteq> t \<longrightarrow>
       (\<exists>r \<in> set trip_edges_df. seg_from_stop_id r = f \<and> seg_to_stop_id r = t) \<longrightarrow>
       (\<exists>x \<in> set transfers. from_stop_id x = f \<and> to_stop_id x = t) \<longrightarrow>
       get_edge G f t =
         Some \<lparr>weight = transfer_weight (min_transfer_time
                  (last (filter (\<lambda>x. from_stop_id x = f \<and> to_stop_id x = t) transfers))),
               etype = transfer,
               route = Some (seg_route_id
                  (last (filter (\<lambda>r. seg_from_stop_id r = f \<and> seg_to_stop_id r = t) trip_edges_df)))\<rparr>)"
proof (intro conjI allI impI)
  have b: "build_graph stops_df trip_edges_df (transfer_query transfers) = Inr G"
    using assms by (simp add: load_graph_def)
  show "distinct (edges G)" using b by (intro distinct_edges graph_inv_build)
  fix f t
  assume ft: "f \<noteq> t"
    and tr: "\<exists>r \<in> set trip_edges_df. seg_from_stop_id r = f \<and> seg_to_stop_id r = t"
    and xf: "\<exists>x \<in> set transfers. from_stop_id x = f \<and> to_stop_id x = t"
  let ?G3 = "foldl add_trip_edge (station_graph stops_df) trip_edges_df"
  let ?ts = "filter (\<lambda>r. seg_from_stop_id r = f \<and> seg_to_stop_id r = t) trip_edges_df"
  let ?xs = "filter (\<lambda>x. from_stop_id x = f \<and> to_stop_id x = t) transfers"
  have G: "G = foldl add_transfer_edge ?G3 (transfer_query transfers)"
    using b by (simp add: build_graph_Inr)
  have ts: "?ts \<noteq> []" using tr by (auto simp: filter_empty_conv)
  have xs: "?xs \<noteq> []" using xf by (auto simp: filter_empty_conv)
  have hn: "has_node ?G3 f" "has_node ?G3 t"
    using tr by (auto simp: has_node_foldl_trip)
  have e3: "get_edge ?G3 f t = Some \<lparr>weight = seg_weight (last ?ts), etype = travel,
                     route = Some (seg_route_id (last ?ts))\<rparr>"
    using ts by (simp add: get_edge_foldl_trip Let_def)
  show "get_edge G f t =
         Some \<lparr>weight = transfer_weight (min_transfer_time (last ?xs)), etype = transfer,
               route = Some (seg_route_id (last ?ts))\<rparr>"
    unfolding G get_edge_foldl_transfer[OF hn] Let_def filter_transfer_query[OF ft]
    using xs by (simp add: e3 route_of_def last_map)
qed

theorem transfer_overwrites_travel_witness:
  "load_graph
     [\<lparr>stop_id = ''A'', stop_name = ''Alpha'', stop_lat = Fin 0, stop_lon = Fin 0\<rparr>,
      \<lparr>stop_id = ''B'', stop_name = ''Beta'', stop_lat = Fin 0, stop_lon = Fin 0\<rparr>]
     [\<lparr>seg_from_stop_id = ''A'', seg_to_stop_id = ''B'', seg_weight = 100, seg_route_id = ''1''\<rparr>]
     [\<lparr>from_stop_id = ''A'', to_stop_id = ''B'', min_transfer_time = Some 50\<rparr>]
   = Inr \<lparr>nodes = [(''A'', \<lparr>name = Some ''Alpha'', coords = Some (Fin 0, Fin 0)\<rparr>),
                   (''B'', \<lparr>name = Some ''Beta'', coords = Some (Fin 0, Fin 0)\<rparr>)],
           adj = [(''A'', [(''B'', \<lparr>weight = 50, etype = transfer, route = Some ''1''\<rparr>)]),
                  (''B'', [])]\<rparr>
   \<and> distinct (edges \<lparr>nodes = [(''A'', \<lparr>name = Some ''Alpha'', coords = Some (Fin 0, Fin 0)\<rparr>),
                   (''B'', \<lparr>name = Some ''Beta'', coords = Some (Fin 0, Fin 0)\<rparr>)],
           adj = [(''A'', [(''B'', \<lparr>weight = 50, etype = transfer, route = Some ''1''\<rparr>)]),
                  (''B'', [])]\<rparr>)
   \<and> get_edge \<lparr>nodes = [(''A'', \<lparr>name = Some ''Alpha'', coords = Some (Fin 0, Fin 0)\<rparr>),
                   (''B'', \<lparr>name = Some ''Beta'', coords = Some (Fin 0, Fin 0)\<rparr>)],
           adj = [(''A'', [(''B'', \<lparr>weight = 50, etype = transfer, route = Some ''1''\<rparr>)]),
                  (''B'', [])]\<rparr> ''A'' ''B''
     = Some \<lparr>weight = 50, etype = transfer, route = Some ''1''\<rparr>"
proof -
  let ?S = "[\<lparr>stop_id = ''A'', stop_name = ''Alpha'', stop_lat = Fin 0, stop_lon = Fin 0\<rparr>,
      \<lparr>stop_id = ''B'', stop_name = ''Beta'', stop_lat = Fin 0, stop_lon = Fin 0\<rparr>]"
  let ?T = "[\<lparr>seg_from_stop_id = ''A'', seg_to_stop_id = ''B'', seg_weight = 100, seg_route_id = ''1''\<rparr>]"
  let ?X = "[\<lparr>from_stop_id = ''A'', to_stop_id = ''B'', min_transfer_time = Some 50\<rparr>]"
  let ?G = "\<lparr>nodes = [(''A'', \<lparr>name = Some ''Alpha'', coords = Some (Fin 0, Fin 0)\<rparr>),
                   (''B'', \<lparr>name = Some ''Beta'', coords = Some (Fin 0, Fin 0)\<rparr>)],
           adj = [(''A'', [(''B'', \<lparr>weight = 50, etype = transfer, route = Some ''1''\<rparr>)]),
                  (''B'', [])]\<rparr>"
  have h: "load_graph ?S ?T ?X = Inr ?G" by code_simp
  note t = transfer_overwrites_travel[OF h]
  from t have d: "distinct (edges ?G)" by (rule conjunct1)
  from t have "get_edge ?G ''A'' ''B'' = Some \<lparr>weight = 50, etype = transfer, route = Some ''1''\<rparr>"
    by (simp add: transfer_weight_def)
  with h d show ?thesis by blast
qed

text \<open>
  The Travel edge is not discarded entirely: with the Travel row the edge from A to B
  carries the route of that row, without it the same Transfer record gives an edge
  with no route.
\<close>

theorem travel_route_survives_transfer:
  "get_edge (projr (load_graph
     [\<lparr>stop_id = ''A'', stop_name = ''Alpha'', stop_lat = Fin 0, stop_lon = Fin 0\<rparr>,
      \<lparr>stop_id = ''B'', stop_name = ''Beta'', stop_lat = Fin 0, stop_lon = Fin 0\<rparr>]
     [\<lparr>seg_from_stop_id = ''A'', seg_to_stop_id = ''B'', seg_weight = 100, seg_route_id = ''1''\<rparr>]
     [\<lparr>from_stop_id = ''A'', to_stop_id = ''B'', min_transfer_time = Some 50\<rparr>])) ''A'' ''B''
   = Some \<lparr>weight = 50, etype = transfer, route = Some ''1''\<rparr>
   \<and> get_edge (projr (load_graph
     [\<lparr>stop_id = ''A'', stop_name = ''Alpha'', stop_lat = Fin 0, stop_lon = Fin 0\<rparr>,
      \<lparr>stop_id = ''B'', stop_name = ''Beta'', stop_lat = Fin 0, stop_lon = Fin 0\<rparr>]
     []
     [\<lparr>from_stop_id = ''A'', to_stop_id = ''B'', min_transfer_time = Some 50\<rparr>])) ''A'' ''B''
   = Some \<lparr>weight = 50, etype = transfer, route = None\<rparr>"
  by code_simp

text \<open>
  Claim C4 against the code. The loop over the Travel rows calls \<^verbatim>\<open>add_edge\<close> without
  the test \<^verbatim>\<open>has_node\<close> that the loop over the Transfer rows makes, and \<^verbatim>\<open>add_edge\<close>
  creates the endpoints it does not find. With the single station A and a Travel row
  from A to B, the graph has the node B, which is no loaded station and has neither
  name nor coordinates, and the edge from A to B.
\<close>

theorem travel_edge_adds_unknown_station:
  "load_graph
     [\<lparr>stop_id = ''A'', stop_name = ''Alpha'', stop_lat = Fin 0, stop_lon = Fin 0\<rparr>]
     [\<lparr>seg_from_stop_id = ''A'', seg_to_stop_id = ''B'', seg_weight = 100, seg_route_id = ''1''\<rparr>]
     []
   = Inr \<lparr>nodes = [(''A'', \<lparr>name = Some ''Alpha'', coords = Some (Fin 0, Fin 0)\<rparr>),
                   (''B'', \<lparr>name = None, coords = None\<rparr>)],
           adj = [(''A'', [(''B'', \<lparr>weight = 100, etype = travel, route = Some ''1''\<rparr>)]),
                  (''B'', [])]\<rparr>"
  by code_simp

lemma transfer_query_row:
  "(u, v, w) \<in> set (transfer_query transfers) \<longleftrightarrow>
     u \<noteq> v \<and> (\<exists>r \<in> set transfers. from_stop_id r = u \<and> to_stop_id r = v \<and>
        w = transfer_weight (min_transfer_time r))"
  by (auto simp: transfer_query_def)

lemma transfer_edges_from_rows:
  assumes "\<forall>u v e. get_edge G u v = Some e \<longrightarrow> etype e = transfer \<longrightarrow> (u, v, weight e) \<in> set rows"
    and "set rs \<subseteq> set rows"
  shows "\<forall>u v e. get_edge (foldl add_transfer_edge G rs) u v = Some e \<longrightarrow> etype e = transfer \<longrightarrow>
           (u, v, weight e) \<in> set rows"
  using assms
proof (induction rs arbitrary: G)
  case Nil then show ?case by simp
next
  case (Cons r rs)
  obtain a b w where r: "r = (a, b, w)" by (cases r)
  have "\<forall>u v e. get_edge (add_transfer_edge G r) u v = Some e \<longrightarrow> etype e = transfer \<longrightarrow>
           (u, v, weight e) \<in> set rows"
    using Cons.prems unfolding r by (auto simp: get_edge_add_transfer_edge split: if_splits)
  then show ?case using Cons.IH Cons.prems(2) by simp
qed

text \<open>
  Claim C3. In the graph that the builder returns, every edge of kind \<open>transfer\<close>
  joins two different stations and its weight is that of a Transfer record for the
  pair: the stored minimum transfer time when that is strictly positive, and exactly
  180 otherwise (also when it is 0 or NULL). Every Transfer record with two different
  endpoints that are nodes has an edge of kind \<open>transfer\<close>.
\<close>

theorem transfer_edge_weight:
  assumes "load_graph stops_df trip_edges_df transfers = Inr G"
  shows "(\<forall>u v e. get_edge G u v = Some e \<longrightarrow> etype e = transfer \<longrightarrow>
            u \<noteq> v \<and>
            (\<exists>r \<in> set transfers. from_stop_id r = u \<and> to_stop_id r = v \<and>
               weight e = (case min_transfer_time r of
                             Some m \<Rightarrow> if 0 < m then m else 180
                           | None \<Rightarrow> 180)))
       \<and> (\<forall>r \<in> set transfers.
            from_stop_id r \<noteq> to_stop_id r \<longrightarrow>
            has_node G (from_stop_id r) \<longrightarrow> has_node G (to_stop_id r) \<longrightarrow>
            (\<exists>e. get_edge G (from_stop_id r) (to_stop_id r) = Some e \<and> etype e = transfer))"
proof (intro conjI allI impI ballI)
  let ?G3 = "foldl add_trip_edge (station_graph stops_df) trip_edges_df"
  have G: "G = foldl add_transfer_edge ?G3 (transfer_query transfers)"
    using assms by (simp add: load_graph_def build_graph_Inr)
  have 3: "\<forall>u v e. get_edge ?G3 u v = Some e \<longrightarrow> etype e = transfer \<longrightarrow>
      (u, v, weight e) \<in> set (transfer_query transfers)"
    by (auto simp: get_edge_foldl_trip get_edge_station_graph Let_def split: if_splits)
  note 4 = transfer_edges_from_rows[OF 3 subset_refl, folded G]
  {
    fix u v e assume e: "get_edge G u v = Some e" "etype e = transfer"
    then have m: "(u, v, weight e) \<in> set (transfer_query transfers)" using 4 by blast
    then show "u \<noteq> v" by (simp add: transfer_query_row)
    from m show "\<exists>r \<in> set transfers. from_stop_id r = u \<and> to_stop_id r = v \<and>
               weight e = (case min_transfer_time r of
                             Some m \<Rightarrow> if 0 < m then m else 180
                           | None \<Rightarrow> 180)"
      unfolding transfer_query_row transfer_weight_def by blast
  }
  fix r assume r: "r \<in> set transfers" "from_stop_id r \<noteq> to_stop_id r"
    "has_node G (from_stop_id r)" "has_node G (to_stop_id r)"
  have hn: "has_node ?G3 (from_stop_id r)" "has_node ?G3 (to_stop_id r)"
    using r(3,4) unfolding G by (simp_all add: has_node_foldl_transfer)
  have ne: "filter (\<lambda>x. from_stop_id x = from_stop_id r \<and> to_stop_id x = to_stop_id r) transfers \<noteq> []"
    using r(1) by (auto simp: filter_empty_conv)
  show "\<exists>e. get_edge G (from_stop_id r) (to_stop_id r) = Some e \<and> etype e = transfer"
    unfolding G get_edge_foldl_transfer[OF hn] Let_def filter_transfer_query[OF r(2)]
    using ne by simp
qed


theorem transfer_edge_weight_witness:
  "load_graph
     [\<lparr>stop_id = ''A'', stop_name = ''Alpha'', stop_lat = Fin 0, stop_lon = Fin 0\<rparr>,
      \<lparr>stop_id = ''B'', stop_name = ''Beta'', stop_lat = Fin 0, stop_lon = Fin 0\<rparr>]
     []
     [\<lparr>from_stop_id = ''A'', to_stop_id = ''B'', min_transfer_time = Some 0\<rparr>,
      \<lparr>from_stop_id = ''B'', to_stop_id = ''B'', min_transfer_time = Some 60\<rparr>]
   = Inr \<lparr>nodes = [(''A'', \<lparr>name = Some ''Alpha'', coords = Some (Fin 0, Fin 0)\<rparr>),
                   (''B'', \<lparr>name = Some ''Beta'', coords = Some (Fin 0, Fin 0)\<rparr>)],
           adj = [(''A'', [(''B'', \<lparr>weight = 180, etype = transfer, route = None\<rparr>)]),
                  (''B'', [])]\<rparr>
   \<and> (\<exists>e. get_edge \<lparr>nodes = [(''A'', \<lparr>name = Some ''Alpha'', coords = Some (Fin 0, Fin 0)\<rparr>),
                   (''B'', \<lparr>name = Some ''Beta'', coords = Some (Fin 0, Fin 0)\<rparr>)],
           adj = [(''A'', [(''B'', \<lparr>weight = 180, etype = transfer, route = None\<rparr>)]),
                  (''B'', [])]\<rparr> ''A'' ''B'' = Some e \<and> etype e = transfer \<and> weight e = 180)"
proof -
  let ?X = "[\<lparr>from_stop_id = ''A'', to_stop_id = ''B'', min_transfer_time = Some 0\<rparr>,
      \<lparr>from_stop_id = ''B'', to_stop_id = ''B'', min_transfer_time = Some 60\<rparr>]"
  let ?G = "\<lparr>nodes = [(''A'', \<lparr>name = Some ''Alpha'', coords = Some (Fin 0, Fin 0)\<rparr>),
                   (''B'', \<lparr>name = Some ''Beta'', coords = Some (Fin 0, Fin 0)\<rparr>)],
           adj = [(''A'', [(''B'', \<lparr>weight = 180, etype = transfer, route = None\<rparr>)]),
                  (''B'', [])]\<rparr>"
  have h: "load_graph
     [\<lparr>stop_id = ''A'', stop_name = ''Alpha'', stop_lat = Fin 0, stop_lon = Fin 0\<rparr>,
      \<lparr>stop_id = ''B'', stop_name = ''Beta'', stop_lat = Fin 0, stop_lon = Fin 0\<rparr>]
     [] ?X = Inr ?G" by code_simp
  note t = transfer_edge_weight[OF h]
  have n: "has_node ?G ''A''" "has_node ?G ''B''" by (simp_all add: has_node_def)
  from t[THEN conjunct2] n obtain e where e: "get_edge ?G ''A'' ''B'' = Some e" "etype e = transfer"
    by fastforce
  from t[THEN conjunct1] e have "weight e = 180" by fastforce
  with e have "\<exists>e. get_edge ?G ''A'' ''B'' = Some e \<and> etype e = transfer \<and> weight e = 180" by blast
  with h show ?thesis by blast
qed

section \<open>Properties of the heuristic\<close>

lemma cos_prod_shift: "cos (m - h) * cos (m + h) = (cos m)\<^sup>2 - (sin h)\<^sup>2" for m h :: real
proof -
  have "cos (m - h) * cos (m + h) = (cos m * cos h)\<^sup>2 - (sin m * sin h)\<^sup>2"
    by (simp add: cos_diff cos_add power2_eq_square algebra_simps)
  also have "\<dots> = (cos m)\<^sup>2 * (cos h)\<^sup>2 - (sin m)\<^sup>2 * (sin h)\<^sup>2"
    by (simp only: power_mult_distrib)
  also have "\<dots> = (cos m)\<^sup>2 * (1 - (sin h)\<^sup>2) - (1 - (cos m)\<^sup>2) * (sin h)\<^sup>2"
    by (simp only: cos_squared_eq[of h] sin_squared_eq[of m])
  also have "\<dots> = (cos m)\<^sup>2 - (sin h)\<^sup>2" by (simp add: algebra_simps)
  finally show ?thesis .
qed

lemma sin_squared_le_one: "(sin x)\<^sup>2 \<le> 1" for x :: real
  using abs_sin_le_one[of x] by (simp add: abs_square_le_1)

lemma cos_squared_le_one: "(cos x)\<^sup>2 \<le> 1" for x :: real
  using abs_cos_le_one[of x] by (simp add: abs_square_le_1)

lemma haversine_a_alt:
  "haversine_a lat1 lon1 lat2 lon2 =
     (sin (radians (lat2 - lat1) / 2))\<^sup>2 * (1 - (sin (radians (lon2 - lon1) / 2))\<^sup>2)
     + (cos ((radians lat1 + radians lat2) / 2))\<^sup>2 * (sin (radians (lon2 - lon1) / 2))\<^sup>2"
proof -
  let ?m = "(radians lat1 + radians lat2) / 2"
  let ?h = "radians (lat2 - lat1) / 2"
  have 1: "radians lat1 = ?m - ?h" "radians lat2 = ?m + ?h"
    by (simp_all add: radians_def field_simps)
  have "cos (radians lat1) * cos (radians lat2) = (cos ?m)\<^sup>2 - (sin ?h)\<^sup>2"
    by (subst 1(1), subst 1(2)) (rule cos_prod_shift)
  then have "haversine_a lat1 lon1 lat2 lon2 =
      (sin ?h)\<^sup>2 + ((cos ?m)\<^sup>2 - (sin ?h)\<^sup>2) * (sin (radians (lon2 - lon1) / 2))\<^sup>2"
    by (simp add: haversine_a_def Let_def)
  also have "\<dots> = (sin ?h)\<^sup>2 * (1 - (sin (radians (lon2 - lon1) / 2))\<^sup>2)
     + (cos ?m)\<^sup>2 * (sin (radians (lon2 - lon1) / 2))\<^sup>2"
    by (simp add: algebra_simps)
  finally show ?thesis .
qed

lemma haversine_a_ge0: "0 \<le> haversine_a lat1 lon1 lat2 lon2"
proof -
  have "(sin (radians (lon2 - lon1) / 2))\<^sup>2 \<le> 1" by (rule sin_squared_le_one) 
  then show ?thesis unfolding haversine_a_alt
    by (intro add_nonneg_nonneg mult_nonneg_nonneg) simp_all
qed

lemma haversine_a_le1: "haversine_a lat1 lon1 lat2 lon2 \<le> 1"
proof -
  let ?S = "(sin (radians (lon2 - lon1) / 2))\<^sup>2"
  let ?X = "(sin (radians (lat2 - lat1) / 2))\<^sup>2"
  let ?Y = "(cos ((radians lat1 + radians lat2) / 2))\<^sup>2"
  have S: "0 \<le> ?S" "0 \<le> 1 - ?S" using sin_squared_le_one[of "radians (lon2 - lon1) / 2"] by simp_all
  have "?X * (1 - ?S) \<le> 1 * (1 - ?S)"
    by (rule mult_right_mono[OF sin_squared_le_one S(2)])
  then have A: "?X * (1 - ?S) \<le> 1 - ?S" by simp
  have "?Y * ?S \<le> 1 * ?S"
    by (rule mult_right_mono[OF cos_squared_le_one S(1)])
  then have B: "?Y * ?S \<le> ?S" by simp
  have "?X * (1 - ?S) + ?Y * ?S \<le> (1 - ?S) + ?S" by (rule add_mono[OF A B])
  then show ?thesis unfolding haversine_a_alt by simp
qed

lemma atan2_sqrt_arcsin:
  assumes "0 \<le> a" "a \<le> 1"
  shows "atan2 (sqrt a) (sqrt (1 - a)) = arcsin (sqrt a)"
proof (cases "a = 1")
  case True
  then show ?thesis by (simp add: atan2_def)
next
  case False
  with assms have a: "0 \<le> a" "a < 1" by simp_all
  let ?s = "sqrt a"
  let ?t = "arcsin ?s"
  have s0: "0 \<le> ?s" using a by simp
  have s1: "?s < 1" using a by (simp add: real_sqrt_lt_1_iff)
  have sb: "-1 \<le> ?s" "?s \<le> 1" "-1 < ?s" using s0 s1 by linarith+
  have "cos ?t = sqrt (1 - ?s\<^sup>2)" by (rule cos_arcsin[OF sb(1,2)])
  then have c: "cos ?t = sqrt (1 - a)" using a by simp
  have cpos: "0 < sqrt (1 - a)" using a by simp
  have st: "sin ?t = ?s" by (rule sin_arcsin[OF sb(1,2)])
  have tt: "tan ?t = ?s / sqrt (1 - a)" unfolding tan_def st c ..
  have b: "- (pi / 2) < ?t \<and> ?t < pi / 2" by (rule arcsin_lt_bounded[OF sb(3) s1])
  have "arctan (tan ?t) = ?t" by (rule arctan_tan) (use b in simp_all)
  then have "arctan (?s / sqrt (1 - a)) = ?t" unfolding tt .
  then show ?thesis using cpos by (simp add: atan2_def)
qed



lemma haversine_real_nonneg: "0 \<le> haversine_real lat1 lon1 lat2 lon2"
proof -
  let ?a = "haversine_a lat1 lon1 lat2 lon2"
  have a: "0 \<le> ?a" "?a \<le> 1" by (rule haversine_a_ge0, rule haversine_a_le1)
  have "sqrt ?a \<in> {0..1}" using a by simp
  then have n: "0 \<le> arcsin (sqrt ?a)" by (rule arcsin_nonneg)
  have "haversine_real lat1 lon1 lat2 lon2 = R * (2 * arcsin (sqrt ?a))"
    by (simp add: haversine_real_def Let_def atan2_sqrt_arcsin[OF a])
  then show ?thesis using n by (simp add: R_def)
qed

lemma heuristic_no_coords_u: "node_coords G u = Inl e \<Longrightarrow> heuristic G u v = Fin 0"
  by (simp add: heuristic_def)

lemma heuristic_no_coords_v: "node_coords G v = Inl e \<Longrightarrow> heuristic G u v = Fin 0"
  by (simp add: heuristic_def split: sum.splits)


lemma heuristic_nonneg: "heuristic G u v = Fin x \<Longrightarrow> 0 \<le> x"
proof -
  assume h: "heuristic G u v = Fin x"
  have "\<And>a b c d y. fdiv (haversine a b c d) 10 = Fin y \<Longrightarrow> 0 \<le> y"
  proof -
    fix a b c d y assume "fdiv (haversine a b c d) 10 = Fin y"
    then show "0 \<le> y"
    proof (cases a; cases b; cases c; cases d; simp)
      fix p q r s assume "haversine_real p q r s = y * 10"
      then have "0 \<le> y * 10" using haversine_real_nonneg[of p q r s] by simp
      then show "0 \<le> y" by simp
    qed
  qed
  then show ?thesis using h
    by (auto simp: heuristic_def SUBWAY_SPEED_MPS_def split: sum.splits)
qed





text \<open>
  Claim C5 against the code. The handler of \<^verbatim>\<open>heuristic\<close> catches \<^verbatim>\<open>KeyError\<close>,
  which a missing node or a missing \<^verbatim>\<open>coords\<close> attribute raises. A station whose
  latitude and longitude are NULL in the table has the attribute, with \<^verbatim>\<open>nan\<close> in
  it; no \<^verbatim>\<open>KeyError\<close> is raised and the estimate is \<^verbatim>\<open>nan\<close>, not 0.
\<close>

theorem null_coordinates_give_nan:
  "load_graph
     [\<lparr>stop_id = ''A'', stop_name = ''Alpha'', stop_lat = NaN, stop_lon = NaN\<rparr>,
      \<lparr>stop_id = ''B'', stop_name = ''Beta'', stop_lat = Fin 0, stop_lon = Fin 0\<rparr>]
     [] []
   = Inr \<lparr>nodes = [(''A'', \<lparr>name = Some ''Alpha'', coords = Some (NaN, NaN)\<rparr>),
               (''B'', \<lparr>name = Some ''Beta'', coords = Some (Fin 0, Fin 0)\<rparr>)],
      adj = [(''A'', []), (''B'', [])]\<rparr>
   \<and> heuristic
     \<lparr>nodes = [(''A'', \<lparr>name = Some ''Alpha'', coords = Some (NaN, NaN)\<rparr>),
               (''B'', \<lparr>name = Some ''Beta'', coords = Some (Fin 0, Fin 0)\<rparr>)],
      adj = [(''A'', []), (''B'', [])]\<rparr> ''A'' ''B'' = NaN"
proof -
  have 1: "load_graph
     [\<lparr>stop_id = ''A'', stop_name = ''Alpha'', stop_lat = NaN, stop_lon = NaN\<rparr>,
      \<lparr>stop_id = ''B'', stop_name = ''Beta'', stop_lat = Fin 0, stop_lon = Fin 0\<rparr>]
     [] []
   = Inr \<lparr>nodes = [(''A'', \<lparr>name = Some ''Alpha'', coords = Some (NaN, NaN)\<rparr>),
               (''B'', \<lparr>name = Some ''Beta'', coords = Some (Fin 0, Fin 0)\<rparr>)],
      adj = [(''A'', []), (''B'', [])]\<rparr>" by code_simp
  show ?thesis unfolding 1 by (simp add: heuristic_def node_coords_def)
qed




section \<open>Properties of the priority queue\<close>

lemma mset_update_swap:
  assumes "i < length xs" "j < length xs"
  shows "mset ((xs[i := xs ! j])[j := x]) = mset (xs[i := x])"
proof (cases "i = j")
  case True then show ?thesis by simp
next
  case False
  have "mset ((xs[i := xs ! j])[j := x]) = add_mset x (mset (xs[i := xs ! j]) - {# (xs[i := xs ! j]) ! j #})"
    using assms by (simp add: mset_update)
  also have "(xs[i := xs ! j]) ! j = xs ! j" using False by simp
  also have "mset (xs[i := xs ! j]) = add_mset (xs ! j) (mset xs - {# xs ! i #})"
    using assms by (simp add: mset_update)
  finally have "mset ((xs[i := xs ! j])[j := x]) = add_mset x (mset xs - {# xs ! i #})"
    by simp
  then show ?thesis using assms by (simp add: mset_update)
qed

lemma mset_siftdown_loop:
  "pos < length heap \<Longrightarrow> mset (siftdown_loop newitem heap startpos pos) = mset (heap[pos := newitem])"
proof (induction newitem heap startpos pos rule: siftdown_loop.induct)
  case (1 newitem heap startpos pos)
  show ?case
  proof (cases "pos > startpos \<and> entry_lt newitem (heap ! ((pos - 1) div 2))")
    case True
    let ?pp = "(pos - 1) div 2"
    have pp: "?pp < length heap" using "1.prems" by simp
    have "mset (siftdown_loop newitem (heap[pos := heap ! ?pp]) startpos ?pp) =
          mset ((heap[pos := heap ! ?pp])[?pp := newitem])"
      using True pp by (intro "1.IH") simp_all
    also have "\<dots> = mset (heap[pos := newitem])"
      by (rule mset_update_swap[OF "1.prems" pp])
    finally show ?thesis using True by (subst siftdown_loop.simps) (simp add: Let_def)
  next
    case False
    then show ?thesis by (subst siftdown_loop.simps) (auto simp: Let_def)
  qed
qed

lemma length_siftdown_loop: "length (siftdown_loop newitem heap startpos pos) = length heap"
proof (induction newitem heap startpos pos rule: siftdown_loop.induct)
  case (1 newitem heap startpos pos)
  show ?case
  proof (cases "pos > startpos \<and> entry_lt newitem (heap ! ((pos - 1) div 2))")
    case True
    then show ?thesis using "1.IH"[OF _ refl refl] by (subst siftdown_loop.simps) (simp add: Let_def)
  next
    case False
    then show ?thesis by (subst siftdown_loop.simps) (auto simp: Let_def)
  qed
qed


lemma mset_heappush: "mset (heappush heap item) = add_mset item (mset heap)"
proof -
  have "mset (heappush heap item) = mset ((heap @ [item])[length heap := item])"
    unfolding heappush_def siftdown_def by (subst mset_siftdown_loop) simp_all
  then show ?thesis by simp
qed


section \<open>Properties of the search\<close>






lemma length_heappush: "length (heappush q x) = Suc (length q)"
  using mset_heappush[of q x] by (metis size_add_mset size_mset)



















lemma cost_vec_queue_update [simp]: "cost_vec G (st\<lparr>queue := q\<rparr>) = cost_vec G st"
  by (simp add: cost_vec_def cost_of_def)

lemma cost_vec_explored_update [simp]: "cost_vec G (st\<lparr>explored := x\<rparr>) = cost_vec G st"
  by (simp add: cost_vec_def cost_of_def)















text \<open>
  Claim C8. When the start node or the end node is not in the graph, the route query
  reports that a node was not found. The test comes before the call of the search, so
  the outcome is the same for every graph, also for one on which the search would not end.
\<close>

theorem missing_node_is_reported:
  assumes "\<not> has_node G origin \<or> \<not> has_node G destination"
  shows "plan_route G origin destination = Some Node_not_found"
  using assms by (auto simp: plan_route_def)

theorem missing_node_is_reported_witness:
  "\<not> has_node \<lparr>nodes = [(''A'', \<lparr>name = Some ''Alpha'', coords = Some (Fin 0, Fin 0)\<rparr>)],
                adj = [(''A'', [])]\<rparr> ''X''
   \<and> plan_route \<lparr>nodes = [(''A'', \<lparr>name = Some ''Alpha'', coords = Some (Fin 0, Fin 0)\<rparr>)],
                adj = [(''A'', [])]\<rparr> ''X'' ''A'' = Some Node_not_found"
proof -
  let ?G = "\<lparr>nodes = [(''A'', \<lparr>name = Some ''Alpha'', coords = Some (Fin 0, Fin 0)\<rparr>)],
                adj = [(''A'', [])]\<rparr>"
  have n: "\<not> has_node ?G ''X''" by (simp add: has_node_def)
  then have "\<not> has_node ?G ''X'' \<or> \<not> has_node ?G ''A''" by simp
  from missing_node_is_reported[OF this] n show ?thesis by blast
qed

section \<open>The heap order of the priority queue\<close>

lemma entry_lt_num:
  "entry_lt (Fin a, c, r) (Fin b, c', r') \<longleftrightarrow> a < b \<or> (a = b \<and> c < c')"
  by (auto simp: entry_lt_def)

lemma num_entryE:
  assumes "num_entry e"
  obtains a c r where "e = (Fin a, c, r)"
  using assms by (cases e) (auto simp: num_entry_def)

lemma entry_lt_imp_le: "num_entry x \<Longrightarrow> num_entry y \<Longrightarrow> entry_lt x y \<Longrightarrow> entry_le x y"
  by (elim num_entryE) (auto simp: entry_le_def entry_lt_num)

lemma entry_le_trans:
  "num_entry x \<Longrightarrow> num_entry y \<Longrightarrow> num_entry z \<Longrightarrow> entry_le x y \<Longrightarrow> entry_le y z \<Longrightarrow> entry_le x z"
  by (elim num_entryE) (auto simp: entry_le_def entry_lt_num)

lemma entry_le_refl: "num_entry x \<Longrightarrow> entry_le x x"
  by (elim num_entryE) (auto simp: entry_le_def entry_lt_num)

lemma parent_child: "0 < c \<Longrightarrow> ((c - 1) div 2 = pos \<longleftrightarrow> c = 2 * pos + 1 \<or> c = 2 * pos + 2)" for c pos :: nat
  by presburger

lemma parent_less: "0 < i \<Longrightarrow> (i - 1) div 2 < i" for i :: nat
  by presburger

lemma heap_ok_root:
  assumes "heap_ok h" "\<forall>e \<in> set h. num_entry e" "i < length h"
  shows "entry_le (h ! 0) (h ! i)"
  using assms(3)
proof (induction i rule: less_induct)
  case (less i)
  show ?case
  proof (cases "i = 0")
    case True
    then show ?thesis using assms(2) less.prems by (simp add: entry_le_refl)
  next
    case False
    let ?p = "(i - 1) div 2"
    have p: "?p < i" using False by (simp add: parent_less)
    then have pl: "?p < length h" using less.prems by simp
    have 1: "entry_le (h ! 0) (h ! ?p)" by (rule less.IH[OF p pl])
    have 2: "entry_le (h ! ?p) (h ! i)" using assms(1) less.prems False by (simp add: heap_ok_def)
    have n: "\<And>j. j < length h \<Longrightarrow> num_entry (h ! j)" using assms(2) by simp
    have l0: "0 < length h" using less.prems by linarith
    show ?thesis
      by (rule entry_le_trans[OF n[OF l0] n[OF pl] n[OF less.prems] 1 2])
  qed
qed

lemma heap_ok_siftdown_loop:
  assumes "startpos = 0" "hole_ok h pos" "\<forall>e \<in> set h. num_entry e" "num_entry x"
    "\<forall>c < length h. 0 < c \<longrightarrow> (c - 1) div 2 = pos \<longrightarrow> entry_le x (h ! c)"
  shows "heap_ok (siftdown_loop x h startpos pos)"
  using assms
proof (induction x h startpos pos rule: siftdown_loop.induct)
  case (1 x h startpos pos)
  let ?pp = "(pos - 1) div 2"
  have n: "\<And>j. j < length h \<Longrightarrow> num_entry (h ! j)" using "1.prems"(3) by simp
  have posl: "pos < length h" using "1.prems"(2) by (simp add: hole_ok_def)
  have hb: "\<And>i. i < length h \<Longrightarrow> 0 < i \<Longrightarrow> i \<noteq> pos \<Longrightarrow> (i - 1) div 2 \<noteq> pos \<Longrightarrow>
        entry_le (h ! ((i - 1) div 2)) (h ! i)"
    using "1.prems"(2) by (simp add: hole_ok_def)
  have hc: "\<And>c. c < length h \<Longrightarrow> 0 < c \<Longrightarrow> (c - 1) div 2 = pos \<Longrightarrow> 0 < pos \<Longrightarrow>
        entry_le (h ! ?pp) (h ! c)"
    using "1.prems"(2) by (simp add: hole_ok_def)
  have hx: "\<And>c. c < length h \<Longrightarrow> 0 < c \<Longrightarrow> (c - 1) div 2 = pos \<Longrightarrow> entry_le x (h ! c)"
    using "1.prems"(5) by simp
  show ?case
  proof (cases "pos > startpos \<and> entry_lt x (h ! ?pp)")
    case True
    then have pos0: "0 < pos" and lt: "entry_lt x (h ! ?pp)" using "1.prems"(1) by simp_all
    have ppl: "?pp < pos" using pos0 by (rule parent_less)
    have ppn: "?pp < length h" using ppl posl by simp
    let ?h1 = "h[pos := h ! ?pp]"
    have h1: "\<And>j. j < length h \<Longrightarrow> ?h1 ! j = (if j = pos then h ! ?pp else h ! j)"
      by (simp add: nth_list_update)
    have xpp: "entry_le x (h ! ?pp)" by (rule entry_lt_imp_le[OF "1.prems"(4) n[OF ppn] lt])
    have star: "0 < ?pp \<Longrightarrow> entry_le (h ! ((?pp - 1) div 2)) (h ! ?pp)"
    proof -
      assume a: "0 < ?pp"
      have "(?pp - 1) div 2 < ?pp" using a by (rule parent_less)
      then have "(?pp - 1) div 2 \<noteq> pos" using ppl by simp
      then show ?thesis using hb[OF ppn a] ppl by simp
    qed
    have sib: "\<And>c. c < length h \<Longrightarrow> 0 < c \<Longrightarrow> (c - 1) div 2 = ?pp \<Longrightarrow> c \<noteq> pos \<Longrightarrow>
        entry_le (h ! ?pp) (h ! c)"
    proof -
      fix c assume c: "c < length h" "0 < c" "(c - 1) div 2 = ?pp" "c \<noteq> pos"
      have "(c - 1) div 2 \<noteq> pos" using c(3) ppl by simp
      from hb[OF c(1,2,4) this] show "entry_le (h ! ?pp) (h ! c)" using c(3) by simp
    qed
    have hole: "hole_ok ?h1 ?pp"
      unfolding hole_ok_def
    proof (intro conjI allI impI)
      show "?pp < length ?h1" using ppn by simp
    next
      fix i assume i: "i < length ?h1" "0 < i" "i \<noteq> ?pp" "(i - 1) div 2 \<noteq> ?pp"
      have il: "i < length h" using i(1) by simp
      have ip: "i \<noteq> pos" using i(4) by blast
      have pil: "(i - 1) div 2 < length h" using il parent_less[OF i(2)] by simp
      show "entry_le (?h1 ! ((i - 1) div 2)) (?h1 ! i)"
      proof (cases "(i - 1) div 2 = pos")
        case True
        then show ?thesis using hc[OF il i(2) True pos0] ip il pil by (simp add: h1)
      next
        case False
        then show ?thesis using hb[OF il i(2) ip False] ip il pil by (simp add: h1)
      qed
    next
      fix c assume c: "c < length ?h1" "0 < c" "(c - 1) div 2 = ?pp" "0 < ?pp"
      have cl: "c < length h" using c(1) by simp
      have gp: "(?pp - 1) div 2 < ?pp" using c(4) by (rule parent_less)
      then have gpn: "(?pp - 1) div 2 \<noteq> pos" "(?pp - 1) div 2 < length h" using ppl ppn by simp_all
      show "entry_le (?h1 ! ((?pp - 1) div 2)) (?h1 ! c)"
      proof (cases "c = pos")
        case True
        then show ?thesis using star[OF c(4)] gpn cl by (simp add: h1)
      next
        case False
        have "entry_le (h ! ((?pp - 1) div 2)) (h ! c)"
          by (rule entry_le_trans[OF n[OF gpn(2)] n[OF ppn] n[OF cl] star[OF c(4)] sib[OF cl c(2,3) False]])
        then show ?thesis using False gpn cl by (simp add: h1)
      qed
    qed
    have num1: "\<forall>e \<in> set ?h1. num_entry e"
    proof
      fix e assume "e \<in> set ?h1"
      then have "e \<in> insert (h ! ?pp) (set h)" using set_update_subset_insert by fast
      then show "num_entry e" using "1.prems"(3) n[OF ppn] by auto
    qed
    have kids: "\<forall>c < length ?h1. 0 < c \<longrightarrow> (c - 1) div 2 = ?pp \<longrightarrow> entry_le x (?h1 ! c)"
    proof (intro allI impI)
      fix c assume c: "c < length ?h1" "0 < c" "(c - 1) div 2 = ?pp"
      have cl: "c < length h" using c(1) by simp
      show "entry_le x (?h1 ! c)"
      proof (cases "c = pos")
        case True then show ?thesis using xpp cl by (simp add: h1)
      next
        case False
        have "entry_le x (h ! c)"
          by (rule entry_le_trans[OF "1.prems"(4) n[OF ppn] n[OF cl] xpp sib[OF cl c(2,3) False]])
        then show ?thesis using False cl by (simp add: h1)
      qed
    qed
    have "heap_ok (siftdown_loop x ?h1 startpos ?pp)"
      using True by (intro "1.IH"[OF _ refl refl _ "1.prems"(1) hole num1 "1.prems"(4) kids]) simp_all
    then show ?thesis using True by (subst siftdown_loop.simps) (simp add: Let_def)
  next
    case False
    have res: "siftdown_loop x h startpos pos = h[pos := x]"
      using False by (subst siftdown_loop.simps) (auto simp: Let_def)
    have r: "\<And>j. j < length h \<Longrightarrow> (h[pos := x]) ! j = (if j = pos then x else h ! j)"
      by (simp add: nth_list_update)
    have "heap_ok (h[pos := x])"
      unfolding heap_ok_def
    proof (intro allI impI)
      fix i assume i: "i < length (h[pos := x])" "0 < i"
      have il: "i < length h" using i(1) by simp
      have pil: "(i - 1) div 2 < length h" using il parent_less[OF i(2)] by simp
      have pi: "(i - 1) div 2 \<noteq> i" using parent_less[OF i(2)] by simp
      show "entry_le ((h[pos := x]) ! ((i - 1) div 2)) ((h[pos := x]) ! i)"
      proof (cases "i = pos")
        case True
        have "\<not> entry_lt x (h ! ?pp)" using False i(2) True "1.prems"(1) by simp
        then have "entry_le (h ! ?pp) x" by (simp add: entry_le_def)
        then show ?thesis using True pi il pil by (simp add: r)
      next
        case ip: False
        show ?thesis
        proof (cases "(i - 1) div 2 = pos")
          case True
          then show ?thesis using hx[OF il i(2) True] ip il pil by (simp add: r)
        next
          case False
          then show ?thesis using hb[OF il i(2) ip False] ip il pil by (simp add: r)
        qed
      qed
    qed
    then show ?thesis unfolding res .
  qed
qed

lemma hole_ok_siftup_loop:
  assumes "hole_ok h pos" "\<forall>e \<in> set h. num_entry e"
  shows "hole_ok (fst (siftup_loop h pos)) (snd (siftup_loop h pos)) \<and>
         length (fst (siftup_loop h pos)) \<le> 2 * snd (siftup_loop h pos) + 1 \<and>
         (\<forall>e \<in> set (fst (siftup_loop h pos)). num_entry e)"
  using assms
proof (induction h pos rule: siftup_loop.induct)
  case (1 h pos)
  have n: "\<And>j. j < length h \<Longrightarrow> num_entry (h ! j)" using "1.prems"(2) by simp
  have posl: "pos < length h" using "1.prems"(1) by (simp add: hole_ok_def)
  have hb: "\<And>i. i < length h \<Longrightarrow> 0 < i \<Longrightarrow> i \<noteq> pos \<Longrightarrow> (i - 1) div 2 \<noteq> pos \<Longrightarrow>
        entry_le (h ! ((i - 1) div 2)) (h ! i)"
    using "1.prems"(1) by (simp add: hole_ok_def)
  have hc: "\<And>c. c < length h \<Longrightarrow> 0 < c \<Longrightarrow> (c - 1) div 2 = pos \<Longrightarrow> 0 < pos \<Longrightarrow>
        entry_le (h ! ((pos - 1) div 2)) (h ! c)"
    using "1.prems"(1) by (simp add: hole_ok_def)
  show ?case
  proof (cases "2 * pos + 1 < length h")
    case False
    then have "siftup_loop h pos = (h, pos)" by (subst siftup_loop.simps) (simp add: Let_def)
    then show ?thesis using "1.prems" False by simp
  next
    case True
    define cp where "cp = (if 2 * pos + 1 + 1 < length h \<and>
        \<not> entry_lt (h ! (2 * pos + 1)) (h ! (2 * pos + 1 + 1)) then 2 * pos + 1 + 1 else 2 * pos + 1)"
    have cpl: "cp < length h" using True by (simp add: cp_def)
    have cp0: "0 < cp" by (simp add: cp_def)
    have cpp: "(cp - 1) div 2 = pos" by (simp add: cp_def)
    have cpgt: "pos < cp" by (simp add: cp_def)
    have eq: "siftup_loop h pos = siftup_loop (h[pos := h ! cp]) cp"
      using True by (subst siftup_loop.simps) (simp add: Let_def cp_def)
    let ?h1 = "h[pos := h ! cp]"
    have h1: "\<And>j. j < length h \<Longrightarrow> ?h1 ! j = (if j = pos then h ! cp else h ! j)"
      by (simp add: nth_list_update)
    have sib: "\<And>i. i < length h \<Longrightarrow> 0 < i \<Longrightarrow> (i - 1) div 2 = pos \<Longrightarrow> i \<noteq> cp \<Longrightarrow>
        entry_le (h ! cp) (h ! i)"
    proof -
      fix i assume i: "i < length h" "0 < i" "(i - 1) div 2 = pos" "i \<noteq> cp"
      from i(2,3) have ic: "i = 2 * pos + 1 \<or> i = 2 * pos + 2" by presburger
      show "entry_le (h ! cp) (h ! i)"
      proof (cases "cp = 2 * pos + 1")
        case True
        then have i2: "i = 2 * pos + 2" using ic i(4) by simp
        have "entry_lt (h ! (2 * pos + 1)) (h ! (2 * pos + 1 + 1))"
          using True i2 i(1) unfolding cp_def by (auto split: if_splits)
        then have "entry_le (h ! (2 * pos + 1)) (h ! (2 * pos + 1 + 1))"
          using i2 i(1) by (intro entry_lt_imp_le n) simp_all
        then show ?thesis using True i2 by simp
      next
        case False
        then have c2: "cp = 2 * pos + 1 + 1" by (simp add: cp_def split: if_splits)
        then have i1: "i = 2 * pos + 1" using ic i(4) by simp
        have "\<not> entry_lt (h ! (2 * pos + 1)) (h ! (2 * pos + 1 + 1))"
          using c2 unfolding cp_def by (auto split: if_splits)
        then show ?thesis using c2 i1 by (simp add: entry_le_def)
      qed
    qed
    have hole: "hole_ok ?h1 cp"
      unfolding hole_ok_def
    proof (intro conjI allI impI)
      show "cp < length ?h1" using cpl by simp
    next
      fix i assume i: "i < length ?h1" "0 < i" "i \<noteq> cp" "(i - 1) div 2 \<noteq> cp"
      have il: "i < length h" using i(1) by simp
      have pil: "(i - 1) div 2 < length h" using il parent_less[OF i(2)] by simp
      have pi: "(i - 1) div 2 \<noteq> i" using parent_less[OF i(2)] by simp
      show "entry_le (?h1 ! ((i - 1) div 2)) (?h1 ! i)"
      proof (cases "i = pos")
        case True
        then have "0 < pos" using i(2) by simp
        from hc[OF cpl cp0 cpp this] show ?thesis using True pi il pil by (simp add: h1)
      next
        case ip: False
        show ?thesis
        proof (cases "(i - 1) div 2 = pos")
          case True
          then show ?thesis using sib[OF il i(2) True i(3)] ip il pil by (simp add: h1)
        next
          case False
          then show ?thesis using hb[OF il i(2) ip False] ip il pil by (simp add: h1)
        qed
      qed
    next
      fix c assume c: "c < length ?h1" "0 < c" "(c - 1) div 2 = cp" "0 < cp"
      have cl: "c < length h" using c(1) by simp
      have "cp < c" using parent_less[OF c(2)] c(3) by simp
      then have cne: "c \<noteq> pos" using cpgt by simp
      have "(c - 1) div 2 \<noteq> pos" using c(3) cpgt by simp
      from hb[OF cl c(2) cne this] have "entry_le (h ! cp) (h ! c)" using c(3) by simp
      moreover have "?h1 ! ((cp - 1) div 2) = h ! cp" unfolding cpp using posl by simp
      moreover have "?h1 ! c = h ! c" using cne by simp
      ultimately show "entry_le (?h1 ! ((cp - 1) div 2)) (?h1 ! c)" by simp
    qed
    have num1: "\<forall>e \<in> set ?h1. num_entry e"
    proof
      fix e assume "e \<in> set ?h1"
      then have "e \<in> insert (h ! cp) (set h)" using set_update_subset_insert by fast
      then show "num_entry e" using "1.prems"(2) n[OF cpl] by auto
    qed
    show ?thesis unfolding eq
      using True by (intro "1.IH"[OF refl refl True refl _ hole num1]) (simp add: cp_def)
  qed
qed

lemma no_children: "length h \<le> 2 * pos + 1 \<Longrightarrow> c < length h \<Longrightarrow> 0 < c \<Longrightarrow> (c - 1) div 2 \<noteq> pos"
  for c pos :: nat
  by presburger

lemma heap_ok_heappush:
  assumes "heap_ok h" "\<forall>e \<in> set h. num_entry e" "num_entry x"
  shows "heap_ok (heappush h x)"
proof -
  let ?h = "h @ [x]"
  have leaf: "length ?h \<le> 2 * length h + 1" by simp
  have hole: "hole_ok ?h (length h)"
    unfolding hole_ok_def
  proof (intro conjI allI impI)
    show "length h < length ?h" by simp
  next
    fix i assume i: "i < length ?h" "0 < i" "i \<noteq> length h" "(i - 1) div 2 \<noteq> length h"
    then have il: "i < length h" by simp
    then have pil: "(i - 1) div 2 < length h" using parent_less[OF i(2)] by simp
    have "entry_le (h ! ((i - 1) div 2)) (h ! i)" using assms(1) il i(2) by (simp add: heap_ok_def)
    then show "entry_le (?h ! ((i - 1) div 2)) (?h ! i)" using il pil by (simp add: nth_append)
  next
    fix c assume c: "c < length ?h" "0 < c" "(c - 1) div 2 = length h"
    then show "entry_le (?h ! ((length h - 1) div 2)) (?h ! c)"
      using no_children[OF leaf c(1,2)] by simp
  qed
  have num: "\<forall>e \<in> set ?h. num_entry e" using assms(2,3) by simp
  have kids: "\<forall>c < length ?h. 0 < c \<longrightarrow> (c - 1) div 2 = length h \<longrightarrow> entry_le x (?h ! c)"
    using no_children[OF leaf] by blast
  have "heap_ok (siftdown_loop x ?h 0 (length h))"
    by (rule heap_ok_siftdown_loop[OF refl hole num assms(3) kids])
  then show ?thesis by (simp add: heappush_def siftdown_def)
qed

lemma heap_ok_heappop:
  assumes "heap_ok h" "\<forall>e \<in> set h. num_entry e" "h \<noteq> []"
  shows "heap_ok (snd (heappop h))"
proof (cases "butlast h = []")
  case True
  then show ?thesis by (simp add: heappop_def Let_def heap_ok_def)
next
  case False
  let ?h0 = "(butlast h)[0 := last h]"
  have l0: "0 < length (butlast h)" using False by (simp del: length_butlast)
  have lb: "length (butlast h) < length h" using assms(3) by simp
  have last_num: "num_entry (last h)" using assms(2,3) by simp
  have hole: "hole_ok ?h0 0"
    unfolding hole_ok_def
  proof (intro conjI allI impI)
    show "0 < length ?h0" using l0 by (simp del: length_butlast)
  next
    fix i assume i: "i < length ?h0" "0 < i" "i \<noteq> 0" "(i - 1) div 2 \<noteq> 0"
    have il: "i < length (butlast h)" using i(1) by (simp del: length_butlast)
    then have pil: "(i - 1) div 2 < length (butlast h)" using parent_less[OF i(2)] by simp
    have "entry_le (h ! ((i - 1) div 2)) (h ! i)" using assms(1) il lb i(2) by (simp add: heap_ok_def)
    then show "entry_le (?h0 ! ((i - 1) div 2)) (?h0 ! i)"
      using il pil i(3,4) by (simp add: nth_butlast del: length_butlast)
  next
    fix c assume "(0::nat) < 0"
    then show "entry_le (?h0 ! ((0 - 1) div 2)) (?h0 ! c)" by simp
  qed
  have num0: "\<forall>e \<in> set ?h0. num_entry e"
  proof
    fix e assume "e \<in> set ?h0"
    then have "e \<in> insert (last h) (set (butlast h))" using set_update_subset_insert by fast
    then show "num_entry e" using assms(2) last_num by (auto dest: in_set_butlastD)
  qed
  note r = hole_ok_siftup_loop[OF hole num0]
  have x: "?h0 ! 0 = last h" using l0 by (simp del: length_butlast)
  have kids: "\<forall>c < length (fst (siftup_loop ?h0 0)). 0 < c \<longrightarrow>
      (c - 1) div 2 = snd (siftup_loop ?h0 0) \<longrightarrow> entry_le (last h) (fst (siftup_loop ?h0 0) ! c)"
    using no_children r by blast
  have "heap_ok (siftdown_loop (last h) (fst (siftup_loop ?h0 0)) 0 (snd (siftup_loop ?h0 0)))"
    by (rule heap_ok_siftdown_loop[OF refl _ _ last_num kids]) (use r in blast)+
  then show ?thesis using False by (simp add: heappop_def Let_def siftup_def x)
qed

lemma fst_heappop: "h \<noteq> [] \<Longrightarrow> fst (heappop h) = h ! 0"
proof (cases "butlast h = []")
  case True
  assume "h \<noteq> []"
  then have "h = [last h]" using True by (metis append_butlast_last_id append_Nil)
  then obtain x where "h = [x]" by blast
  then show ?thesis by (simp add: heappop_def Let_def)
next
  case False
  then show ?thesis by (simp add: heappop_def Let_def hd_conv_nth nth_butlast del: length_butlast)
qed

lemma heappop_min:
  assumes "heap_ok h" "\<forall>e \<in> set h. num_entry e" "e \<in> set h"
  shows "entry_le (fst (heappop h)) e"
proof -
  from assms(3) obtain i where i: "i < length h" "h ! i = e" by (auto simp: in_set_conv_nth)
  have "h \<noteq> []" using assms(3) by auto
  then show ?thesis using heap_ok_root[OF assms(1,2) i(1)] i(2) by (simp add: fst_heappop)
qed

section \<open>The result of the route query\<close>




end
